theory Spec2Isabelle
  imports Main "HOL-Library.Word"
begin

section \<open>Template substitution (processTemplate)\<close>

text \<open>
  A JavaScript string is a sequence of 16-bit code units; \<open>js\<close> writes one with the
  characters of a literal.
\<close>

type_synonym codeUnit = "16 word"

type_synonym jsString = "codeUnit list"

definition js :: "string \<Rightarrow> jsString" where
  "js s = map (\<lambda>c. of_nat (of_char c)) s"

definition leftBrace :: codeUnit where
  "leftBrace = 0x7B"

definition rightBrace :: codeUnit where
  "rightBrace = 0x7D"

text \<open>
  \<open>String.prototype.trim\<close> removes white space and line terminators from both ends: tab,
  line feed, vertical tab, form feed, carriage return, space, no-break space, the other
  space separators of Unicode, line and paragraph separator, and the byte order mark.
\<close>

definition isWhiteSpace :: "codeUnit \<Rightarrow> bool" where
  "isWhiteSpace c \<longleftrightarrow>
     c \<in> set [0x0009, 0x000A, 0x000B, 0x000C, 0x000D, 0x0020, 0x00A0, 0x1680,
               0x2000, 0x2001, 0x2002, 0x2003, 0x2004, 0x2005, 0x2006, 0x2007, 0x2008,
               0x2009, 0x200A, 0x2028, 0x2029, 0x202F, 0x205F, 0x3000, 0xFEFF]"

definition trim :: "jsString \<Rightarrow> jsString" where
  "trim s = rev (dropWhile isWhiteSpace (rev (dropWhile isWhiteSpace s)))"

text \<open>
  The values that a property of the context object can have, and their conversion to a
  string, which \<open>String.prototype.replace\<close> applies to the result of the replacer. Numbers
  are left out: the contexts built by the callers hold option labels. \<open>NativeFunction n\<close>
  is the built-in function of that name, \<open>PlainObject\<close> an object that inherits
  \<open>toString\<close> from \<open>Object.prototype\<close>. The text of a built-in function is the one that V8
  gives; the standard fixes it up to white space, and other engines break the lines.
\<close>

datatype jsValue =
  Undefined
| Null
| BooleanValue bool
| StringValue jsString
| NativeFunction string
| PlainObject

fun toString :: "jsValue \<Rightarrow> jsString" where
  "toString Undefined = js ''undefined''"
| "toString Null = js ''null''"
| "toString (BooleanValue b) = (if b then js ''true'' else js ''false'')"
| "toString (StringValue s) = s"
| "toString (NativeFunction n) = js (''function '' @ n @ ''() { [native code] }'')"
| "toString PlainObject = js ''[object Object]''"

text \<open>
  The context object \<open>data\<close> is an ordinary object: the map of its own properties, with
  \<open>Object.prototype\<close> as its prototype. \<open>data[name]\<close> reads an own property, and otherwise
  the property that \<open>Object.prototype\<close> has under the name.
\<close>

type_synonym templateData = "jsString \<rightharpoonup> jsValue"

definition objectPrototype :: "jsString \<Rightarrow> jsValue" where
  "objectPrototype name =
     (if name = js ''constructor'' then NativeFunction ''Object''
      else if name = js ''__proto__'' then PlainObject
      else case find (\<lambda>n. js n = name)
                  [''hasOwnProperty'', ''isPrototypeOf'', ''propertyIsEnumerable'',
                   ''toLocaleString'', ''toString'', ''valueOf'', ''__defineGetter__'',
                   ''__defineSetter__'', ''__lookupGetter__'', ''__lookupSetter__''] of
             Some n \<Rightarrow> NativeFunction n
           | None \<Rightarrow> Undefined)"

definition getProperty :: "templateData \<Rightarrow> jsString \<Rightarrow> jsValue" where
  "getProperty data name = (case data name of Some v \<Rightarrow> v | None \<Rightarrow> objectPrototype name)"

text \<open>
  The replacer callback of \<open>text.replace\<close>: \<open>match\<close> is the whole token, \<open>key\<close> the
  captured group.
\<close>

definition replacer :: "templateData \<Rightarrow> jsString \<Rightarrow> jsString \<Rightarrow> jsString" where
  "replacer data match key =
     (let trimmedKey = trim key
      in if getProperty data trimmedKey \<noteq> Undefined
         then toString (getProperty data trimmedKey) else match)"

text \<open>
  \<open>text.replace(/\{\{([^}]+)\}\}/g, replacer)\<close>: a left-to-right scan. At each position
  the pattern matches exactly when the text continues with two opening braces, a
  non-empty maximal run of code units other than the closing brace, and two closing
  braces; the scan resumes behind the match, and otherwise copies one code unit.
\<close>

function replaceAll :: "templateData \<Rightarrow> jsString \<Rightarrow> jsString" where
  "replaceAll data [] = []"
| "replaceAll data (c # cs) =
     (if c = leftBrace \<and> take 1 cs = [leftBrace] then
        (let key = takeWhile (\<lambda>x. x \<noteq> rightBrace) (tl cs);
             rest = dropWhile (\<lambda>x. x \<noteq> rightBrace) (tl cs)
         in if key \<noteq> [] \<and> take 2 rest = [rightBrace, rightBrace]
            then replacer data ([leftBrace, leftBrace] @ key @ [rightBrace, rightBrace]) key
                 @ replaceAll data (drop 2 rest)
            else c # replaceAll data cs)
      else c # replaceAll data cs)"
  by pat_completeness auto
termination
proof (relation "measure (\<lambda>(data, s). length s)")
  show "wf (measure (\<lambda>(data, s). length s))" by simp
next
  fix data :: templateData and c :: codeUnit and cs key rest :: jsString
  assume "rest = dropWhile (\<lambda>x. x \<noteq> rightBrace) (tl cs)"
  then have "length (drop 2 rest) \<le> length (tl cs)"
    using length_dropWhile_le [of "\<lambda>x. x \<noteq> rightBrace" "tl cs"] by simp
  then show "((data, drop 2 rest), (data, c # cs)) \<in> measure (\<lambda>(data, s). length s)"
    by simp
qed simp_all

definition processTemplate :: "jsString \<Rightarrow> templateData option \<Rightarrow> jsString" where
  "processTemplate text data =
     (case data of
        None \<Rightarrow> text
      | Some d \<Rightarrow> if text = [] then text else replaceAll d text)"

section \<open>The contract of template substitution, in the words of the specification\<close>

text \<open>
  A token is \<open>{{name}}\<close> with a non-empty name that has no closing brace. A text and its
  substitution under a valuation of the names: read from the left, a token whose name
  has a value is replaced by the value, a token whose name has none passes through
  verbatim, and where no token begins one code unit is copied.
\<close>

definition token :: "jsString \<Rightarrow> jsString" where
  "token name = [leftBrace, leftBrace] @ name @ [rightBrace, rightBrace]"

definition isName :: "jsString \<Rightarrow> bool" where
  "isName name \<longleftrightarrow> name \<noteq> [] \<and> rightBrace \<notin> set name"

definition tokenAhead :: "jsString \<Rightarrow> bool" where
  "tokenAhead s \<longleftrightarrow> (\<exists>name rest. isName name \<and> s = token name @ rest)"

inductive substitutes :: "(jsString \<Rightarrow> jsString option) \<Rightarrow> jsString \<Rightarrow> jsString \<Rightarrow> bool"
  for valuation :: "jsString \<Rightarrow> jsString option" where
  finished: "substitutes valuation [] []"
| replaced:
    "isName name \<Longrightarrow> valuation name = Some v \<Longrightarrow> substitutes valuation rest out \<Longrightarrow>
     substitutes valuation (token name @ rest) (v @ out)"
| verbatim:
    "isName name \<Longrightarrow> valuation name = None \<Longrightarrow> substitutes valuation rest out \<Longrightarrow>
     substitutes valuation (token name @ rest) (token name @ out)"
| copied:
    "\<not> tokenAhead (c # cs) \<Longrightarrow> substitutes valuation cs out \<Longrightarrow>
     substitutes valuation (c # cs) (c # out)"

text \<open>
  The value that the context gives a name: that of \<open>data[name]\<close>, the white space around
  the name removed, as a string; none when \<open>data[name]\<close> is undefined.
\<close>

definition tokenValue :: "templateData \<Rightarrow> jsString \<Rightarrow> jsString option" where
  "tokenValue data name =
     (case getProperty data (trim name) of
        Undefined \<Rightarrow> None
      | v \<Rightarrow> Some (toString v))"

section \<open>Questions, steps and the response store\<close>

text \<open>
  A question of the survey definition. Optional properties are options; a property that
  JavaScript tests for truthiness (\<open>forOptionId\<close>, \<open>linkedQuestionId\<close>) is falsy when it is
  missing or the empty string.
\<close>

record rule =
  ruleQuestionId :: "string option"
  ruleOperator :: "string option"
  ruleValue :: string

record conditionSet =
  rules :: "rule list option"

record optionItem =
  optionValue :: string
  optionLabel :: string

record question =
  qid :: string
  qtype :: string
  required :: bool
  allowComment :: bool
  conditions :: "conditionSet option"
  forOptionId :: "string option"
  linkedQuestionId :: "string option"
  options :: "optionItem list option"

record step =
  stepId :: string
  questions :: "question list option"

definition truthy :: "string option \<Rightarrow> bool" where
  "truthy v = (case v of None \<Rightarrow> False | Some s \<Rightarrow> s \<noteq> [])"

text \<open>
  The value of a stored response: \<open>null\<close>, a string, the object \<open>{isOther: true, otherValue}\<close>
  that the radio renderer saves, the object of option flags that the checkbox renderer
  saves, or an array of the legacy format, whose items are \<open>null\<close>, strings or objects (with
  whether \<open>isOther\<close> is truthy). A response without a value has \<open>answer = None\<close>.
\<close>

datatype listItem = NullItem | TextItem string | ObjectItem bool

datatype answerValue =
  NullValue
| TextValue string
| OtherChoice string
| OptionFlags "(string \<times> bool) list"
| LegacyList "listItem list"

record response =
  answer :: "answerValue option"
  comment :: "string option"

type_synonym responseStore = "string \<rightharpoonup> response"

section \<open>The view tree\<close>

text \<open>
  A node of the rendered view: the container \<open>renderQuestion\<close> builds for a question, or
  any other element. \<open>ref\<close> is the identity of the JavaScript object. The nodes that the
  leaf renderers build inside a question's container are summarised by \<open>childKinds\<close>;
  no selector of the reconciliation code can pick one of them before the container itself.
\<close>

record element =
  ref :: nat
  classList :: "string list"
  elementId :: string
  dataQuestionId :: "string option"
  dataQuestionType :: "string option"
  dataTemplateData :: "(string \<times> string) list option"
  dataOriginalQuestionId :: "string option"
  dataForOptionId :: "string option"
  dataLinkedQuestionId :: "string option"
  styleOpacity :: "string option"
  styleMaxHeight :: "string option"
  styleOverflow :: "string option"
  styleTransition :: "string option"
  childKinds :: "string list"

text \<open>
  The part of the document below the \<open>container\<close> argument. \<open>Flat kids\<close>: the container
  has no \<open>.survey-step-content\<close> descendant and \<open>kids\<close> are its children.
  \<open>Wrapped pre inner post\<close>: the children of the container are \<open>pre\<close>, then the first
  \<open>.survey-step-content\<close> element, whose children are \<open>inner\<close>, then \<open>post\<close>. The model
  assumes that the document has no element with a question's id outside the container.
\<close>

datatype viewTree =
  Flat "element list"
| Wrapped "element list" "element list" "element list"

fun docOrder :: "viewTree \<Rightarrow> element list" where
  "docOrder (Flat kids) = kids"
| "docOrder (Wrapped pre inner post) = pre @ inner @ post"

text \<open>The children of \<open>container.querySelector('.survey-step-content') || container\<close>.\<close>

fun actualChildren :: "viewTree \<Rightarrow> element list" where
  "actualChildren (Flat kids) = kids"
| "actualChildren (Wrapped pre inner post) = inner"

text \<open>
  Positions in a list: of the first and of the last element with a property.
  \<open>container.querySelector\<close> is \<open>findIndex\<close> on the document order; the last element
  of \<open>container.querySelectorAll\<close> is \<open>findLastIndex\<close>.
\<close>

fun findIndex :: "('a \<Rightarrow> bool) \<Rightarrow> 'a list \<Rightarrow> nat option" where
  "findIndex P [] = None"
| "findIndex P (x # xs) = (if P x then Some 0 else map_option Suc (findIndex P xs))"

fun findLastIndex :: "('a \<Rightarrow> bool) \<Rightarrow> 'a list \<Rightarrow> nat option" where
  "findLastIndex P [] = None"
| "findLastIndex P (x # xs) =
     (case findLastIndex P xs of
        Some k \<Rightarrow> Some (Suc k)
      | None \<Rightarrow> if P x then Some 0 else None)"

definition insertAt :: "nat \<Rightarrow> 'a \<Rightarrow> 'a list \<Rightarrow> 'a list" where
  "insertAt k x xs = take k xs @ x # drop k xs"

definition removeAt :: "nat \<Rightarrow> 'a list \<Rightarrow> 'a list" where
  "removeAt k xs = take k xs @ drop (Suc k) xs"

text \<open>
  \<open>document.getElementById\<close>: the position, in document order, of the first element with
  the id.
\<close>

definition getElementById :: "viewTree \<Rightarrow> string \<Rightarrow> nat option" where
  "getElementById t i = findIndex (\<lambda>e. elementId e = i) (docOrder t)"

text \<open>\<open>node.parentElement === actualContainer\<close>, for the node at a position.\<close>

fun parentIsActual :: "viewTree \<Rightarrow> nat \<Rightarrow> bool" where
  "parentIsActual (Flat kids) k = True"
| "parentIsActual (Wrapped pre inner post) k =
     (length pre \<le> k \<and> k < length pre + length inner)"

text \<open>
  \<open>actualContainer.insertBefore(new, reference)\<close> for a reference node that is a child of
  the actual container, \<open>actualContainer.appendChild(new)\<close> and \<open>node.remove()\<close>.
\<close>

fun insertBeforeInActual :: "viewTree \<Rightarrow> element \<Rightarrow> nat \<Rightarrow> viewTree" where
  "insertBeforeInActual (Flat kids) new k = Flat (insertAt k new kids)"
| "insertBeforeInActual (Wrapped pre inner post) new k =
     Wrapped pre (insertAt (k - length pre) new inner) post"

fun appendToActual :: "viewTree \<Rightarrow> element \<Rightarrow> viewTree" where
  "appendToActual (Flat kids) new = Flat (kids @ [new])"
| "appendToActual (Wrapped pre inner post) new = Wrapped pre (inner @ [new]) post"

fun removeNode :: "viewTree \<Rightarrow> nat \<Rightarrow> viewTree" where
  "removeNode (Flat kids) k = Flat (removeAt k kids)"
| "removeNode (Wrapped pre inner post) k =
     (if k < length pre then Wrapped (removeAt k pre) inner post
      else if k < length pre + length inner
        then Wrapped pre (removeAt (k - length pre) inner) post
      else Wrapped pre inner (removeAt (k - length pre - length inner) post))"

text \<open>
  Exceptions are values. \<open>TypeError\<close>: a property of \<open>undefined\<close> is read;
  \<open>NotFoundError\<close>: \<open>insertBefore\<close> is given a reference node that is not a child of the
  receiver; \<open>RendererError\<close>: an imported leaf renderer throws.
\<close>

datatype fault = TypeError | NotFoundError | RendererError

text \<open>
  Placing a new element behind the node at position \<open>k\<close>, as the source does it on the
  container itself: \<open>container.insertBefore(new, node.nextSibling)\<close> when the node has a
  next sibling, \<open>container.appendChild(new)\<close> otherwise. The next sibling of the last
  node of \<open>pre\<close> is the wrapper; a next sibling inside the wrapper is not a child of the
  container, and \<open>insertBefore\<close> throws.
\<close>

fun insertAfterInContainer :: "viewTree \<Rightarrow> nat \<Rightarrow> element \<Rightarrow> fault + viewTree" where
  "insertAfterInContainer (Flat kids) k new =
     (if Suc k < length kids then Inr (Flat (insertAt (Suc k) new kids))
      else Inr (Flat (kids @ [new])))"
| "insertAfterInContainer (Wrapped pre inner post) k new =
     (if k < length pre then Inr (Wrapped (insertAt (Suc k) new pre) inner post)
      else if k < length pre + length inner then
        (if Suc k < length pre + length inner then Inl NotFoundError
         else Inr (Wrapped pre inner (post @ [new])))
      else if Suc k < length pre + length inner + length post
        then Inr (Wrapped pre inner (insertAt (Suc k - length pre - length inner) new post))
      else Inr (Wrapped pre inner (post @ [new])))"

fun appendToContainer :: "viewTree \<Rightarrow> element \<Rightarrow> viewTree" where
  "appendToContainer (Flat kids) new = Flat (kids @ [new])"
| "appendToContainer (Wrapped pre inner post) new = Wrapped pre inner (post @ [new])"

text \<open>Assignments to properties of the node at a position.\<close>

fun updateNode :: "viewTree \<Rightarrow> nat \<Rightarrow> (element \<Rightarrow> element) \<Rightarrow> viewTree" where
  "updateNode (Flat kids) k f = Flat (kids[k := f (kids ! k)])"
| "updateNode (Wrapped pre inner post) k f =
     (if k < length pre then Wrapped (pre[k := f (pre ! k)]) inner post
      else if k < length pre + length inner
        then Wrapped pre (inner[k - length pre := f (inner ! (k - length pre))]) post
      else Wrapped pre inner
             (post[k - length pre - length inner := f (post ! (k - length pre - length inner))]))"

section \<open>The state of the page\<close>

text \<open>The functions that \<open>setTimeout\<close> is given in this file.\<close>

datatype callback =
  QuillInit string
| AnimateIn nat
| RemoveElement nat
| CallRefresh "step option"

datatype mutation = Inserted nat | Removed nat

record timer =
  timerId :: nat
  due :: nat
  callback :: callback

text \<open>
  \<open>mutations\<close> records every structural operation on the view tree (\<open>Inserted\<close> for
  \<open>insertBefore\<close> and \<open>appendChild\<close>, with the node's \<open>ref\<close>), and \<open>refreshCalls\<close> the times at
  which \<open>refreshConditionalQuestions\<close> was entered; neither is read by the program.
  \<open>debounceTimeout h\<close> is the variable \<open>timeout\<close> in the closure of the \<open>h\<close>-th function
  that \<open>debounce\<close> returned.
\<close>

record world =
  tree :: viewTree
  responses :: responseStore
  nextRef :: nat
  clock :: nat
  nextTimerId :: nat
  timers :: "timer list"
  debounceTimeout :: "nat \<Rightarrow> nat option"
  mutations :: "mutation list"
  refreshCalls :: "nat list"

text \<open>
  What this file imports: the condition evaluator of \<open>conditionEvaluator.js\<close> and the leaf
  renderers of the other renderer modules (\<open>Inr True\<close>: an element, \<open>Inr False\<close>: a
  falsy result, \<open>Inl\<close>: an exception). Both may read the response store.
\<close>

record env =
  shouldShowQuestion :: "responseStore \<Rightarrow> question \<Rightarrow> bool"
  importedRenderer :: "responseStore \<Rightarrow> question \<Rightarrow> fault + bool"

definition setTimeout :: "callback \<Rightarrow> nat \<Rightarrow> world \<Rightarrow> nat \<times> world" where
  "setTimeout cb delay w =
     (nextTimerId w,
      w\<lparr>timers := timers w @ [\<lparr>timerId = nextTimerId w, due = clock w + delay, callback = cb\<rparr>],
        nextTimerId := Suc (nextTimerId w)\<rparr>)"

definition clearTimeout :: "nat option \<Rightarrow> world \<Rightarrow> world" where
  "clearTimeout i w =
     (case i of
        None \<Rightarrow> w
      | Some n \<Rightarrow> w\<lparr>timers := filter (\<lambda>t. timerId t \<noteq> n) (timers w)\<rparr>)"

section \<open>Rendering a question\<close>

text \<open>The id attribute of a question's container.\<close>

definition questionElementId :: "string \<Rightarrow> string" where
  "questionElementId i = ''question-'' @ i"

definition createQuestionContainer ::
  "question \<Rightarrow> (string \<times> string) list option \<Rightarrow> world \<Rightarrow> element \<times> world" where
  "createQuestionContainer q templateData w =
     (\<lparr>ref = nextRef w,
       classList = ''survey-question'' # (if required q then [''required''] else []),
       elementId = questionElementId (qid q),
       dataQuestionId = Some (qid q),
       dataQuestionType = Some (qtype q),
       dataTemplateData = templateData,
       dataOriginalQuestionId = None,
       dataForOptionId = None,
       dataLinkedQuestionId = None,
       styleOpacity = None,
       styleMaxHeight = None,
       styleOverflow = None,
       styleTransition = None,
       childKinds = []\<rparr>,
      w\<lparr>nextRef := Suc (nextRef w)\<rparr>)"

text \<open>
  The leaf renderers of this file, as far as the reconciliation sees them: whether they
  return an element or throw, and what they schedule. \<open>renderRadio\<close> reads
  \<open>existingResponse.value.isOther\<close> whenever the stored value has type \<open>object\<close>, which
  \<open>null\<close> has; \<open>renderCheckbox\<close> reads \<open>val.isOther\<close> of the items of a stored array, up
  to the first object whose \<open>isOther\<close> is truthy; both call \<open>question.options.forEach\<close> or
  \<open>question.options.map\<close> unguarded.
\<close>

definition renderShortText :: "question \<Rightarrow> world \<Rightarrow> (fault + bool) \<times> world" where
  "renderShortText q w = (Inr True, w)"

definition renderLongText :: "question \<Rightarrow> world \<Rightarrow> (fault + bool) \<times> world" where
  "renderLongText q w = (Inr True, snd (setTimeout (QuillInit (qid q)) 0 w))"

definition readsIsOtherOfNull :: "response option \<Rightarrow> bool" where
  "readsIsOtherOfNull existingResponse =
     (case existingResponse of
        None \<Rightarrow> False
      | Some r \<Rightarrow> answer r = Some NullValue)"

definition renderRadio :: "question \<Rightarrow> world \<Rightarrow> (fault + bool) \<times> world" where
  "renderRadio q w =
     (if readsIsOtherOfNull (responses w (qid q)) then (Inl TypeError, w)
      else case options q of None \<Rightarrow> (Inl TypeError, w) | Some os \<Rightarrow> (Inr True, w))"

text \<open>
  \<open>existingResponse.value.find(val => typeof val === 'object' && val.isOther)\<close>: whether the
  search reads \<open>isOther\<close> of \<open>null\<close>.
\<close>

fun findReadsNull :: "listItem list \<Rightarrow> bool" where
  "findReadsNull [] = False"
| "findReadsNull (NullItem # items) = True"
| "findReadsNull (TextItem s # items) = findReadsNull items"
| "findReadsNull (ObjectItem isOther # items) = (if isOther then False else findReadsNull items)"

definition legacyListFails :: "response option \<Rightarrow> bool" where
  "legacyListFails existingResponse =
     (case existingResponse of
        None \<Rightarrow> False
      | Some r \<Rightarrow> (case answer r of Some (LegacyList items) \<Rightarrow> findReadsNull items | _ \<Rightarrow> False))"

definition renderCheckbox :: "question \<Rightarrow> world \<Rightarrow> (fault + bool) \<times> world" where
  "renderCheckbox q w =
     (case options q of
        None \<Rightarrow> (Inl TypeError, w)
      | Some os \<Rightarrow>
          if legacyListFails (responses w (qid q)) then (Inl TypeError, w) else (Inr True, w))"

definition QUESTION_TYPES :: "string list" where
  "QUESTION_TYPES = [''shortText'', ''longText'', ''radio'', ''checkbox'', ''likert'',
     ''rangeSlider'', ''matrix2d'', ''rankOptions'', ''tags'', ''multiValueSlider'']"

text \<open>The \<open>switch\<close> of \<open>renderQuestion\<close>; \<open>None\<close> is its \<open>default\<close> branch.\<close>

definition renderInput ::
  "env \<Rightarrow> question \<Rightarrow> world \<Rightarrow> ((fault + bool) \<times> world) option" where
  "renderInput ev q w =
     (if qtype q = ''shortText'' then Some (renderShortText q w)
      else if qtype q = ''longText'' then Some (renderLongText q w)
      else if qtype q = ''radio'' then Some (renderRadio q w)
      else if qtype q = ''checkbox'' then Some (renderCheckbox q w)
      else if qtype q \<in> set [''likert'', ''rangeSlider'', ''matrix2d'', ''rankOptions'',
                             ''tags'', ''multiValueSlider'']
        then Some (importedRenderer ev (responses w) q, w)
      else None)"

definition renderQuestion ::
  "env \<Rightarrow> question option \<Rightarrow> (string \<times> string) list option \<Rightarrow> world
     \<Rightarrow> (fault + element option) \<times> world" where
  "renderQuestion ev question templateData w =
     (case question of
        None \<Rightarrow> (Inr None, w)
      | Some q \<Rightarrow>
          (case createQuestionContainer q templateData w of
             (container0, w1) \<Rightarrow>
               (let container = container0\<lparr>dataOriginalQuestionId :=
                      Some (if truthy (forOptionId q)
                            then (case linkedQuestionId q of None \<Rightarrow> ''undefined'' | Some l \<Rightarrow> l)
                                 @ ''-'' @ the (forOptionId q)
                            else qid q)\<rparr>
                in case renderInput ev q w1 of
                     None \<Rightarrow> (Inr None, w1)
                   | Some (Inl f, w2) \<Rightarrow> (Inl f, w2)
                   | Some (Inr inputElement, w2) \<Rightarrow>
                       (Inr (Some (container\<lparr>childKinds :=
                                (if inputElement then [''input''] else [])
                                @ (if allowComment q then [''comment''] else [])\<rparr>)),
                        w2))))"

section \<open>The first rendering of a step\<close>

text \<open>
  \<open>renderQuestionsForStep\<close>: the first rendering of a step. The standard questions that
  are to be shown are appended to the container in the order of the step; then the
  option-specific questions whose option is checked in the stored answer of their linked
  question are appended. The listeners it sets up at the end are \<open>handler\<close> and
  \<open>onCheckboxOptionChange\<close>.
\<close>

definition renderStandardQuestion :: "env \<Rightarrow> question \<Rightarrow> world \<Rightarrow> world \<times> fault option" where
  "renderStandardQuestion ev q w =
     (if conditions q \<noteq> None \<and> \<not> shouldShowQuestion ev (responses w) q then (w, None)
      else
        (case renderQuestion ev (Some q) None w of
           (Inl f, w1) \<Rightarrow> (w1, Some f)
         | (Inr None, w1) \<Rightarrow> (w1, None)
         | (Inr (Some questionElement), w1) \<Rightarrow>
             (w1\<lparr>tree := appendToContainer (tree w1) questionElement,
                 mutations := mutations w1 @ [Inserted (ref questionElement)]\<rparr>, None)))"

definition isOptionChecked :: "response \<Rightarrow> string \<Rightarrow> bool option" where
  "isOptionChecked linkedResponse optionId =
     (case answer linkedResponse of
        None \<Rightarrow> None
      | Some NullValue \<Rightarrow> None
      | Some (TextValue s) \<Rightarrow> if s = [] then None else Some False
      | Some (OtherChoice otherValue) \<Rightarrow> Some (optionId = ''isOther'')
      | Some (OptionFlags flags) \<Rightarrow> Some (map_of flags optionId = Some True)
      | Some (LegacyList items) \<Rightarrow> Some False)"

definition optionLabelFor :: "question \<Rightarrow> string \<Rightarrow> string" where
  "optionLabelFor linkedQuestion optionId =
     (case options linkedQuestion of
        None \<Rightarrow> optionId
      | Some os \<Rightarrow>
          (case find (\<lambda>opt. optionValue opt = optionId) os of
             None \<Rightarrow> optionId
           | Some opt \<Rightarrow> if optionLabel opt \<noteq> [] then optionLabel opt else optionId))"

definition renderOptionSpecificQuestion ::
  "env \<Rightarrow> question list \<Rightarrow> question \<Rightarrow> world \<Rightarrow> world \<times> fault option" where
  "renderOptionSpecificQuestion ev qs q w =
     (case find (\<lambda>l. Some (qid l) = linkedQuestionId q) qs of
        None \<Rightarrow> (w, None)
      | Some linkedQuestion \<Rightarrow>
          (case responses w (the (linkedQuestionId q)) of
             None \<Rightarrow> (w, None)
           | Some linkedResponse \<Rightarrow>
               (case isOptionChecked linkedResponse (the (forOptionId q)) of
                  None \<Rightarrow> (w, None)
                | Some False \<Rightarrow> (w, None)
                | Some True \<Rightarrow>
                    (case renderQuestion ev (Some q)
                            (Some [(''option'', optionLabelFor linkedQuestion (the (forOptionId q)))]) w of
                       (Inl f, w1) \<Rightarrow> (w1, Some f)
                     | (Inr None, w1) \<Rightarrow> (w1, None)
                     | (Inr (Some questionElement0), w1) \<Rightarrow>
                         (let questionElement = questionElement0
                                \<lparr>dataForOptionId := forOptionId q,
                                 dataLinkedQuestionId := linkedQuestionId q\<rparr>
                          in (w1\<lparr>tree := appendToContainer (tree w1) questionElement,
                                 mutations := mutations w1 @ [Inserted (ref questionElement)]\<rparr>,
                              None))))))"

fun forEachQuestion ::
  "(question \<Rightarrow> world \<Rightarrow> world \<times> fault option) \<Rightarrow> question list \<Rightarrow> world \<Rightarrow> world \<times> fault option" where
  "forEachQuestion body [] w = (w, None)"
| "forEachQuestion body (q # rest) w =
     (case body q w of
        (w1, Some f) \<Rightarrow> (w1, Some f)
      | (w1, None) \<Rightarrow> forEachQuestion body rest w1)"

definition renderQuestionsForStep :: "env \<Rightarrow> step option \<Rightarrow> world \<Rightarrow> world \<times> fault option" where
  "renderQuestionsForStep ev st w =
     (case st of
        None \<Rightarrow> (w, None)
      | Some s \<Rightarrow>
          (case questions s of
             None \<Rightarrow> (w, None)
           | Some qs \<Rightarrow>
               (let standardQuestions = filter (\<lambda>q. \<not> truthy (forOptionId q)) qs;
                    optionSpecificQuestions =
                      filter (\<lambda>q. truthy (forOptionId q) \<and> truthy (linkedQuestionId q)) qs
                in case forEachQuestion (renderStandardQuestion ev) standardQuestions w of
                     (w1, Some f) \<Rightarrow> (w1, Some f)
                   | (w1, None) \<Rightarrow>
                       forEachQuestion (renderOptionSpecificQuestion ev qs)
                         optionSpecificQuestions w1)))"

section \<open>Refreshing the conditional questions\<close>

text \<open>
  The \<open>for\<close> loop over the later questions of the step: the first of them whose element
  exists and is a child of the actual container.
\<close>

fun findAnchor :: "viewTree \<Rightarrow> question list \<Rightarrow> nat option" where
  "findAnchor t [] = None"
| "findAnchor t (next # later) =
     (case getElementById t (questionElementId (qid next)) of
        None \<Rightarrow> findAnchor t later
      | Some k \<Rightarrow> if parentIsActual t k then Some k else findAnchor t later)"

text \<open>
  The questions after \<open>questionIndex\<close>, where \<open>findIndex\<close> of JavaScript gives \<open>-1\<close> when
  no question has the id.
\<close>

definition laterQuestions :: "question list \<Rightarrow> question \<Rightarrow> question list" where
  "laterQuestions qs q =
     (case findIndex (\<lambda>q'. qid q' = qid q) qs of
        None \<Rightarrow> qs
      | Some questionIndex \<Rightarrow> drop (Suc questionIndex) qs)"

definition placeQuestion :: "question list \<Rightarrow> question \<Rightarrow> element \<Rightarrow> world \<Rightarrow> world" where
  "placeQuestion qs q new w =
     (case findAnchor (tree w) (laterQuestions qs q) of
        Some k \<Rightarrow>
          w\<lparr>tree := insertBeforeInActual (tree w) new k,
            mutations := mutations w @ [Inserted (ref new)]\<rparr>
      | None \<Rightarrow>
          w\<lparr>tree := appendToActual (tree w) new,
            mutations := mutations w @ [Inserted (ref new)]\<rparr>)"

text \<open>The body of \<open>step.questions.forEach\<close>; the second component is an exception.\<close>

definition refreshQuestion ::
  "env \<Rightarrow> question list \<Rightarrow> question \<Rightarrow> world \<Rightarrow> world \<times> fault option" where
  "refreshQuestion ev qs q w =
     (if conditions q = None then (w, None)
      else
        (let shouldShow = shouldShowQuestion ev (responses w) q;
             questionElement = getElementById (tree w) (questionElementId (qid q))
         in if shouldShow \<and> questionElement = None then
              (case renderQuestion ev (Some q) None w of
                 (Inl f, w1) \<Rightarrow> (w1, Some f)
               | (Inr None, w1) \<Rightarrow> (w1, None)
               | (Inr (Some new), w1) \<Rightarrow> (placeQuestion qs q new w1, None))
            else if \<not> shouldShow \<and> questionElement \<noteq> None then
              (w\<lparr>tree := removeNode (tree w) (the questionElement),
                 mutations := mutations w
                   @ [Removed (ref (docOrder (tree w) ! the questionElement))]\<rparr>, None)
            else (w, None)))"

fun refreshLoop ::
  "env \<Rightarrow> question list \<Rightarrow> question list \<Rightarrow> world \<Rightarrow> world \<times> fault option" where
  "refreshLoop ev qs [] w = (w, None)"
| "refreshLoop ev qs (q # rest) w =
     (case refreshQuestion ev qs q w of
        (w1, Some f) \<Rightarrow> (w1, Some f)
      | (w1, None) \<Rightarrow> refreshLoop ev qs rest w1)"

definition refreshConditionalQuestions ::
  "env \<Rightarrow> step option \<Rightarrow> world \<Rightarrow> world \<times> fault option" where
  "refreshConditionalQuestions ev st w =
     (let w0 = w\<lparr>refreshCalls := refreshCalls w @ [clock w]\<rparr>
      in case st of
           None \<Rightarrow> (w0, None)
         | Some s \<Rightarrow>
             (case questions s of
                None \<Rightarrow> (w0, None)
              | Some qs \<Rightarrow> refreshLoop ev qs qs w0))"

section \<open>Option-specific questions\<close>

record optionDetails =
  detailQuestionId :: string
  detailOptionId :: string
  detailOptionLabel :: string
  detailChecked :: bool

text \<open>
  The three selectors of \<open>handleOptionSpecificQuestions\<close>:
  \<open>.survey-question[data-question-id=q][data-for-option-id=o]\<close>,
  \<open>.survey-question[data-question-id=q]\<close> and
  \<open>.survey-question[data-linked-question-id=q]\<close>.
\<close>

definition matchesOptionQuestion :: "string \<Rightarrow> string \<Rightarrow> element \<Rightarrow> bool" where
  "matchesOptionQuestion i optionId e \<longleftrightarrow>
     ''survey-question'' \<in> set (classList e) \<and> dataQuestionId e = Some i
     \<and> dataForOptionId e = Some optionId"

definition matchesQuestion :: "string \<Rightarrow> element \<Rightarrow> bool" where
  "matchesQuestion i e \<longleftrightarrow>
     ''survey-question'' \<in> set (classList e) \<and> dataQuestionId e = Some i"

definition matchesLinked :: "string \<Rightarrow> element \<Rightarrow> bool" where
  "matchesLinked i e \<longleftrightarrow>
     ''survey-question'' \<in> set (classList e) \<and> dataLinkedQuestionId e = Some i"

text \<open>
  Where the new option-specific element goes: behind the last element linked to the
  checkbox question when there is one, else behind the checkbox question's element, and
  at the end of the container when the checkbox question has no element.
\<close>

definition placeOptionQuestion :: "string \<Rightarrow> element \<Rightarrow> viewTree \<Rightarrow> fault + viewTree" where
  "placeOptionQuestion questionId new t =
     (case findIndex (matchesQuestion questionId) (docOrder t) of
        Some checkboxQuestionElement \<Rightarrow>
          (case findLastIndex (matchesLinked questionId) (docOrder t) of
             Some lastOptionQuestion \<Rightarrow> insertAfterInContainer t lastOptionQuestion new
           | None \<Rightarrow> insertAfterInContainer t checkboxQuestionElement new)
      | None \<Rightarrow> Inr (appendToContainer t new))"

text \<open>
  The body of \<open>optionQuestions.forEach\<close>. The style assignments of the entrance animation
  follow the insertion in the source; they are made on the same object, so the model
  inserts the element with them.
\<close>

definition handleOptionQuestion ::
  "env \<Rightarrow> optionDetails \<Rightarrow> question \<Rightarrow> world \<Rightarrow> world \<times> fault option" where
  "handleOptionQuestion ev details q w =
     (let questionId = detailQuestionId details;
          optionId = detailOptionId details;
          existingElement = findIndex (matchesOptionQuestion (qid q) optionId) (docOrder (tree w))
      in if detailChecked details \<and> existingElement = None then
           (case renderQuestion ev (Some q) (Some [(''option'', detailOptionLabel details)]) w of
              (Inl f, w1) \<Rightarrow> (w1, Some f)
            | (Inr None, w1) \<Rightarrow> (w1, None)
            | (Inr (Some questionElement0), w1) \<Rightarrow>
                (let questionElement = questionElement0
                       \<lparr>dataForOptionId := Some optionId,
                        dataLinkedQuestionId := Some questionId,
                        styleOpacity := Some ''0'',
                        styleMaxHeight := Some ''0'',
                        styleOverflow := Some ''hidden'',
                        styleTransition := Some ''opacity 0.3s ease, max-height 0.5s ease''\<rparr>
                 in case placeOptionQuestion questionId questionElement (tree w1) of
                      Inl f \<Rightarrow> (w1, Some f)
                    | Inr t \<Rightarrow>
                        (snd (setTimeout (AnimateIn (ref questionElement)) 10
                           (w1\<lparr>tree := t,
                               mutations := mutations w1 @ [Inserted (ref questionElement)]\<rparr>)),
                         None)))
         else if \<not> detailChecked details \<and> existingElement \<noteq> None then
           (let k = the existingElement;
                w1 = w\<lparr>tree := updateNode (tree w) k
                        (\<lambda>e. e\<lparr>styleOpacity := Some ''0'', styleMaxHeight := Some ''0''\<rparr>)\<rparr>
            in (snd (setTimeout (RemoveElement (ref (docOrder (tree w) ! k))) 300 w1), None))
         else (w, None))"

fun handleOptionSpecificQuestions ::
  "env \<Rightarrow> question list \<Rightarrow> optionDetails \<Rightarrow> world \<Rightarrow> world \<times> fault option" where
  "handleOptionSpecificQuestions ev [] details w = (w, None)"
| "handleOptionSpecificQuestions ev (q # optionQuestions) details w =
     (case handleOptionQuestion ev details q w of
        (w1, Some f) \<Rightarrow> (w1, Some f)
      | (w1, None) \<Rightarrow> handleOptionSpecificQuestions ev optionQuestions details w1)"

text \<open>
  The listener of \<open>checkbox-option-change\<close> on the element of question \<open>questionId\<close>:
  it selects the option-specific questions of the step for the option.
\<close>

definition onCheckboxOptionChange ::
  "env \<Rightarrow> question list \<Rightarrow> string \<Rightarrow> optionDetails \<Rightarrow> world \<Rightarrow> world \<times> fault option" where
  "onCheckboxOptionChange ev qs questionId details w =
     (let optionSpecificQuestions =
            filter (\<lambda>q. truthy (forOptionId q) \<and> truthy (linkedQuestionId q)) qs;
          relatedOptionQuestions =
            filter (\<lambda>q. linkedQuestionId q = Some questionId
                        \<and> forOptionId q = Some (detailOptionId details)) optionSpecificQuestions
      in if length relatedOptionQuestions > 0
         then handleOptionSpecificQuestions ev relatedOptionQuestions details w
         else (w, None))"

section \<open>Timers and the event loop\<close>

text \<open>
  What a timer callback does when it runs. \<open>RemoveElement r\<close> is
  \<open>existingElement.remove()\<close> for the object \<open>r\<close>, which does nothing when the object is
  no longer in the tree; \<open>AnimateIn r\<close> assigns the final styles; an exception of the
  debounced refresh ends the callback and is reported by the event loop.
\<close>

definition hasRef :: "nat \<Rightarrow> element \<Rightarrow> bool" where
  "hasRef r e \<longleftrightarrow> ref e = r"

definition runCallback :: "env \<Rightarrow> callback \<Rightarrow> world \<Rightarrow> world" where
  "runCallback ev cb w =
     (case cb of
        QuillInit i \<Rightarrow> w
      | AnimateIn r \<Rightarrow>
          (case findIndex (hasRef r) (docOrder (tree w)) of
             None \<Rightarrow> w
           | Some k \<Rightarrow>
               w\<lparr>tree := updateNode (tree w) k
                     (\<lambda>e. e\<lparr>styleOpacity := Some ''1'', styleMaxHeight := Some ''1000px''\<rparr>)\<rparr>)
      | RemoveElement r \<Rightarrow>
          (case findIndex (hasRef r) (docOrder (tree w)) of
             None \<Rightarrow> w
           | Some k \<Rightarrow>
               w\<lparr>tree := removeNode (tree w) k, mutations := mutations w @ [Removed r]\<rparr>)
      | CallRefresh st \<Rightarrow> fst (refreshConditionalQuestions ev st w))"

text \<open>
  One unit of time passes; then the timers that are due run, earliest first and in the
  order of their registration among equals, each only if it is still pending when its
  turn comes.
\<close>

definition fire :: "env \<Rightarrow> timer \<Rightarrow> world \<Rightarrow> world" where
  "fire ev t w =
     (if timerId t \<in> set (map timerId (timers w))
      then runCallback ev (callback t)
             (w\<lparr>timers := filter (\<lambda>u. timerId u \<noteq> timerId t) (timers w)\<rparr>)
      else w)"

definition tick :: "env \<Rightarrow> world \<Rightarrow> world" where
  "tick ev w =
     (let w1 = w\<lparr>clock := Suc (clock w)\<rparr>
      in fold (fire ev) (sort_key due (filter (\<lambda>t. due t \<le> clock w1) (timers w1))) w1)"

definition elapse :: "env \<Rightarrow> nat \<Rightarrow> world \<Rightarrow> world" where
  "elapse ev n w = ((tick ev) ^^ n) w"

section \<open>Listeners of the trigger questions\<close>

text \<open>
  An element that \<open>setupConditionalQuestionListeners\<close> selects for a trigger question,
  with its tag name and, for an \<open>input\<close>, its type.
\<close>

record control =
  tagName :: string
  inputType :: string

definition eventName :: "control \<Rightarrow> string" where
  "eventName c =
     (if tagName c = ''INPUT'' then
        (if inputType c \<in> set [''text'', ''number'', ''email'', ''tel'', ''url'']
         then ''input'' else ''change'')
      else if tagName c = ''TEXTAREA'' then ''input''
      else ''change'')"

text \<open>
  \<open>debounce(func, wait)\<close> returns a function with its own variable \<open>timeout\<close>; the
  \<open>h\<close>-th such function, called, clears the timer it set before and sets a new one.
\<close>

definition debounced :: "nat \<Rightarrow> callback \<Rightarrow> nat \<Rightarrow> world \<Rightarrow> world" where
  "debounced h func wait w =
     (case setTimeout func wait (clearTimeout (debounceTimeout w h) w) of
        (i, w1) \<Rightarrow> w1\<lparr>debounceTimeout := (debounceTimeout w1)(h := Some i)\<rparr>)"

text \<open>
  The listener that element \<open>c\<close> of a trigger question gets, as the \<open>h\<close>-th listener of
  the step, run for an event of the given name on the element.
\<close>

definition handler :: "env \<Rightarrow> step option \<Rightarrow> nat \<Rightarrow> control \<Rightarrow> world \<Rightarrow> world" where
  "handler ev st h c w =
     (if eventName c = ''input''
      then debounced h (CallRefresh st) 300 w
      else fst (refreshConditionalQuestions ev st w))"

definition dispatchEvent :: "env \<Rightarrow> step option \<Rightarrow> nat \<Rightarrow> control \<Rightarrow> string \<Rightarrow> world \<Rightarrow> world" where
  "dispatchEvent ev st h c name w = (if name = eventName c then handler ev st h c w else w)"

text \<open>
  A burst of input events on an element: an event, and after each gap of the list another
  one.
\<close>

fun burst :: "env \<Rightarrow> step option \<Rightarrow> nat \<Rightarrow> control \<Rightarrow> nat list \<Rightarrow> world \<Rightarrow> world" where
  "burst ev st h c [] w = dispatchEvent ev st h c ''input'' w"
| "burst ev st h c (gap # gaps) w =
     burst ev st h c gaps (elapse ev gap (dispatchEvent ev st h c ''input'' w))"

section \<open>The condition evaluator of the specification\<close>

text \<open>
  Modelled from the spec: the condition evaluator \<open>shouldShowQuestion\<close> of
  \<open>conditionEvaluator.js\<close>, which the renderer module imports and the sources do not
  contain.
  Following the specification, a condition set with a malformed rule (its \<open>questionId\<close>
  missing, or its operator missing or not a known one) is not satisfied. Which operators
  are known, and what a condition set of well-formed rules evaluates to, are parameters.
\<close>

definition malformedRule :: "string list \<Rightarrow> rule \<Rightarrow> bool" where
  "malformedRule known r \<longleftrightarrow>
     ruleQuestionId r = None
     \<or> (case ruleOperator r of None \<Rightarrow> True | Some operator \<Rightarrow> operator \<notin> set known)"

definition conditionOracle ::
  "string list \<Rightarrow> (responseStore \<Rightarrow> question \<Rightarrow> bool) \<Rightarrow> responseStore \<Rightarrow> question \<Rightarrow> bool" where
  "conditionOracle known satisfied store q =
     (case conditions q of
        None \<Rightarrow> True
      | Some cs \<Rightarrow>
          (case rules cs of
             None \<Rightarrow> satisfied store q
           | Some rs \<Rightarrow>
               if list_ex (malformedRule known) rs then False else satisfied store q))"

section \<open>Notions used in the statements\<close>

text \<open>The questions of a step; none when the step or its list is missing.\<close>

definition stepQuestions :: "step option \<Rightarrow> question list" where
  "stepQuestions st =
     (case st of None \<Rightarrow> [] | Some s \<Rightarrow> (case questions s of None \<Rightarrow> [] | Some qs \<Rightarrow> qs))"

text \<open>
  How many elements of the tree carry an id, and whether a lookup by id finds one.
\<close>

definition occurrences :: "viewTree \<Rightarrow> string \<Rightarrow> nat" where
  "occurrences t i = length (filter (\<lambda>e. elementId e = i) (docOrder t))"

definition present :: "viewTree \<Rightarrow> string \<Rightarrow> bool" where
  "present t i \<longleftrightarrow> getElementById t i \<noteq> None"

text \<open>
  What \<open>renderQuestion(question)\<close> comes to in a state: an exception, \<open>null\<close>
  (\<open>Inr False\<close>) or an element (\<open>Inr True\<close>).
\<close>

definition renderOutcome :: "env \<Rightarrow> world \<Rightarrow> question \<Rightarrow> fault + bool" where
  "renderOutcome ev w q =
     (case fst (renderQuestion ev (Some q) None w) of
        Inl f \<Rightarrow> Inl f
      | Inr None \<Rightarrow> Inr False
      | Inr (Some new) \<Rightarrow> Inr True)"

text \<open>
  A question is settled when a refresh has nothing to do for it: it is to be shown and
  its element is there or cannot be built, or it is to be hidden and has no element. It
  is stuck when it is to be shown, has no element, and rendering it throws.
\<close>

definition settled :: "env \<Rightarrow> world \<Rightarrow> question \<Rightarrow> bool" where
  "settled ev w q \<longleftrightarrow>
     (if shouldShowQuestion ev (responses w) q
      then present (tree w) (questionElementId (qid q)) \<or> renderOutcome ev w q = Inr False
      else \<not> present (tree w) (questionElementId (qid q)))"

definition stuck :: "env \<Rightarrow> world \<Rightarrow> question \<Rightarrow> fault \<Rightarrow> bool" where
  "stuck ev w q f \<longleftrightarrow>
     conditions q \<noteq> None \<and> shouldShowQuestion ev (responses w) q
     \<and> \<not> present (tree w) (questionElementId (qid q)) \<and> renderOutcome ev w q = Inl f"

text \<open>
  A question that a refresh pass has to render: it has conditions, is to be shown and has
  no element. And the number of elements that a question with conditions is left with by
  a pass that handles it: one that is to be shown gets one element if it has none and
  can be rendered; one that is to be hidden loses one.
\<close>

definition mustRender :: "env \<Rightarrow> world \<Rightarrow> question \<Rightarrow> bool" where
  "mustRender ev w q \<longleftrightarrow>
     conditions q \<noteq> None \<and> shouldShowQuestion ev (responses w) q
     \<and> \<not> present (tree w) (questionElementId (qid q))"

definition refreshedCount :: "env \<Rightarrow> world \<Rightarrow> question \<Rightarrow> nat" where
  "refreshedCount ev w q =
     (if shouldShowQuestion ev (responses w) q then
        (if \<not> present (tree w) (questionElementId (qid q)) \<and> renderOutcome ev w q = Inr True
         then 1 else occurrences (tree w) (questionElementId (qid q)))
      else occurrences (tree w) (questionElementId (qid q)) - 1)"

text \<open>The position at which \<open>appendChild\<close> on the actual container puts a node.\<close>

definition appendPosition :: "viewTree \<Rightarrow> nat" where
  "appendPosition t =
     (case t of Flat kids \<Rightarrow> length kids | Wrapped pre inner post \<Rightarrow> length pre + length inner)"

text \<open>
  The position in \<open>orderedQuestions\<close> of the question whose id an element carries, and the
  positions of the elements of a tree in document order: of all questions of the step,
  and of the standard ones, those without \<open>forOptionId\<close>.
\<close>

definition stepIndex :: "question list \<Rightarrow> element \<Rightarrow> nat option" where
  "stepIndex qs e = findIndex (\<lambda>q. questionElementId (qid q) = elementId e) qs"

definition standardIndex :: "question list \<Rightarrow> element \<Rightarrow> nat option" where
  "standardIndex qs e =
     (case stepIndex qs e of
        None \<Rightarrow> None
      | Some i \<Rightarrow> if truthy (forOptionId (qs ! i)) then None else Some i)"

definition renderedIndices :: "question list \<Rightarrow> viewTree \<Rightarrow> nat list" where
  "renderedIndices qs t = List.map_filter (stepIndex qs) (docOrder t)"

definition standardIndices :: "question list \<Rightarrow> viewTree \<Rightarrow> nat list" where
  "standardIndices qs t = List.map_filter (standardIndex qs) (docOrder t)"

definition standardInOrder :: "question list \<Rightarrow> viewTree \<Rightarrow> bool" where
  "standardInOrder qs t \<longleftrightarrow> sorted_wrt (<) (standardIndices qs t)"

text \<open>The nodes of the container that are not children of the actual container.\<close>

fun outsideActual :: "viewTree \<Rightarrow> element list" where
  "outsideActual (Flat kids) = []"
| "outsideActual (Wrapped pre inner post) = pre @ post"

text \<open>
  All elements of the step's questions are children of the actual container and stand
  in the order of the step.
\<close>

definition allInOrder :: "question list \<Rightarrow> viewTree \<Rightarrow> bool" where
  "allInOrder qs t \<longleftrightarrow>
     sorted_wrt (<) (renderedIndices qs t)
     \<and> list_all (\<lambda>e. stepIndex qs e = None) (outsideActual t)"

text \<open>
  In the words of the specification: a question has a live node in the same parent, and
  the nearest later question, by its index in \<open>orderedQuestions\<close>, that has one.
\<close>

definition liveInActual :: "viewTree \<Rightarrow> question \<Rightarrow> bool" where
  "liveInActual t q =
     (case getElementById t (questionElementId (qid q)) of
        None \<Rightarrow> False
      | Some k \<Rightarrow> parentIsActual t k)"

definition nearestLater :: "question list \<Rightarrow> viewTree \<Rightarrow> nat \<Rightarrow> nat option" where
  "nearestLater qs t i = map_option (\<lambda>p. Suc i + p) (findIndex (liveInActual t) (drop (Suc i) qs))"



text \<open>A callback other than the debounced refresh.\<close>

definition inert :: "callback \<Rightarrow> bool" where
  "inert cb = (case cb of CallRefresh st \<Rightarrow> False | _ \<Rightarrow> True)"

text \<open>
  The pending timers have distinct ids, all below the next id to be given out; and no
  debounced refresh is pending.
\<close>

definition timersWellFormed :: "world \<Rightarrow> bool" where
  "timersWellFormed w \<longleftrightarrow>
     distinct (map timerId (timers w)) \<and> list_all (\<lambda>t. timerId t < nextTimerId w) (timers w)"

definition noRefreshPending :: "world \<Rightarrow> bool" where
  "noRefreshPending w \<longleftrightarrow> list_all (\<lambda>t. inert (callback t)) (timers w)"

text \<open>
  The refresh timer \<open>tm\<close> of the debounced listener \<open>h\<close> is pending, alone among inert
  timers.
\<close>

definition awaiting :: "nat \<Rightarrow> timer \<Rightarrow> world \<Rightarrow> bool" where
  "awaiting h tm w \<longleftrightarrow>
     tm \<in> set (timers w) \<and> timersWellFormed w
     \<and> list_all (\<lambda>u. u = tm \<or> inert (callback u)) (timers w)
     \<and> debounceTimeout w h = Some (timerId tm)"

section \<open>Example steps and states\<close>

definition emptyWorld :: world where
  "emptyWorld =
     \<lparr>tree = Flat [], responses = Map.empty, nextRef = 0, clock = 0, nextTimerId = 0,
      timers = [], debounceTimeout = (\<lambda>h. None), mutations = [], refreshCalls = []\<rparr>"

definition showAll :: env where
  "showAll =
     \<lparr>shouldShowQuestion = (\<lambda>store q. True), importedRenderer = (\<lambda>store q. Inr True)\<rparr>"

definition plainQuestion :: "string \<Rightarrow> string \<Rightarrow> question" where
  "plainQuestion i ty =
     \<lparr>qid = i, qtype = ty, required = False, allowComment = False, conditions = None,
      forOptionId = None, linkedQuestionId = None, options = None\<rparr>"

text \<open>Examples: a question with an empty condition set, and a step of given questions.\<close>

definition conditionalQuestion :: "string \<Rightarrow> string \<Rightarrow> question" where
  "conditionalQuestion i ty = (plainQuestion i ty)\<lparr>conditions := Some \<lparr>rules = Some []\<rparr>\<rparr>"

definition optionQuestion :: "string \<Rightarrow> string \<Rightarrow> string \<Rightarrow> question" where
  "optionQuestion i optionId linked =
     (plainQuestion i ''shortText'')\<lparr>forOptionId := Some optionId, linkedQuestionId := Some linked\<rparr>"

definition stepOf :: "question list \<Rightarrow> step option" where
  "stepOf qs = Some \<lparr>stepId = ''step'', questions = Some qs\<rparr>"

text \<open>Examples: an element as \<open>renderQuestion\<close> builds it for a short-text question.\<close>

definition questionNode :: "nat \<Rightarrow> string \<Rightarrow> element" where
  "questionNode r i =
     \<lparr>ref = r, classList = [''survey-question''], elementId = questionElementId i,
      dataQuestionId = Some i, dataQuestionType = Some ''shortText'', dataTemplateData = None,
      dataOriginalQuestionId = Some i, dataForOptionId = None, dataLinkedQuestionId = None,
      styleOpacity = None, styleMaxHeight = None, styleOverflow = None,
      styleTransition = None, childKinds = [''input'']\<rparr>"


definition strictEnv :: env where
  "strictEnv =
     \<lparr>shouldShowQuestion = conditionOracle [''equals''] (\<lambda>store q. True),
      importedRenderer = (\<lambda>store q. Inr True)\<rparr>"

definition malformedQuestion :: question where
  "malformedQuestion =
     (plainQuestion ''Q3'' ''shortText'')
       \<lparr>conditions := Some \<lparr>rules = Some [\<lparr>ruleQuestionId = Some ''Q1'',
            ruleOperator = Some ''resembles'', ruleValue = ''yes''\<rparr>]\<rparr>\<rparr>"

text \<open>
  An example step: a checkbox question, a question shown when \<open>Q4\<close> is answered
  \<open>yes\<close>, a question for option \<open>a\<close> of the checkbox question, and a short-text
  question; \<open>a\<close> is checked in the stored answer.
\<close>

definition surveyStep :: "question list" where
  "surveyStep =
     [(plainQuestion ''Q1'' ''checkbox'')
        \<lparr>options := Some [\<lparr>optionValue = ''a'', optionLabel = ''A''\<rparr>,
                          \<lparr>optionValue = ''b'', optionLabel = ''B''\<rparr>]\<rparr>,
      (plainQuestion ''Q2'' ''shortText'')
        \<lparr>conditions := Some \<lparr>rules = Some [\<lparr>ruleQuestionId = Some ''Q4'',
            ruleOperator = Some ''equals'', ruleValue = ''yes''\<rparr>]\<rparr>\<rparr>,
      (plainQuestion ''Q3'' ''shortText'')
        \<lparr>forOptionId := Some ''a'', linkedQuestionId := Some ''Q1''\<rparr>,
      plainQuestion ''Q4'' ''shortText'']"

definition answeredYes :: env where
  "answeredYes =
     \<lparr>shouldShowQuestion = (\<lambda>store q.
        case store ''Q4'' of None \<Rightarrow> False | Some r \<Rightarrow> answer r = Some (TextValue ''yes'')),
      importedRenderer = (\<lambda>store q. Inr True)\<rparr>"

definition firstRendering :: world where
  "firstRendering =
     fst (renderQuestionsForStep answeredYes (stepOf surveyStep)
            (emptyWorld\<lparr>responses :=
               [''Q1'' \<mapsto> \<lparr>answer = Some (OptionFlags [(''a'', True)]), comment = None\<rparr>]\<rparr>))"

definition afterAnswer :: world where
  "afterAnswer =
     firstRendering\<lparr>responses := (responses firstRendering)
        (''Q4'' \<mapsto> \<lparr>answer = Some (TextValue ''yes''), comment = None\<rparr>)\<rparr>"

definition threeQuestions :: "question list" where
  "threeQuestions =
     [plainQuestion ''Q0'' ''shortText'', conditionalQuestion ''Q2'' ''shortText'',
      plainQuestion ''Q5'' ''shortText'']"

definition twoRendered :: world where
  "twoRendered = emptyWorld\<lparr>tree := Flat [questionNode 0 ''Q0'', questionNode 1 ''Q5''], nextRef := 2\<rparr>"

definition checkedA :: optionDetails where
  "checkedA = \<lparr>detailQuestionId = ''Q1'', detailOptionId = ''a'', detailOptionLabel = ''A'',
               detailChecked = True\<rparr>"




definition textInput :: control where
  "textInput = \<lparr>tagName = ''INPUT'', inputType = ''text''\<rparr>"

text \<open>A state in which the removal of an element is pending, as after an option is unchecked.\<close>

definition removalPending :: world where
  "removalPending = snd (setTimeout (RemoveElement 0) 300 emptyWorld)"

text \<open>
  An example step in which the question \<open>Q2\<close> has conditions and also belongs to option
  \<open>a\<close> of the checkbox question \<open>Q1\<close>. \<open>shownTwice\<close> is the state reached when \<open>Q4\<close> is
  answered \<open>yes\<close> at the first rendering, the conditional questions are refreshed and
  option \<open>a\<close> is checked; in \<open>answerChanged\<close> the answer to \<open>Q4\<close> has become \<open>no\<close>.
\<close>

definition linkedStep :: "question list" where
  "linkedStep =
     [(plainQuestion ''Q1'' ''checkbox'')
        \<lparr>options := Some [\<lparr>optionValue = ''a'', optionLabel = ''A''\<rparr>]\<rparr>,
      (optionQuestion ''Q2'' ''a'' ''Q1'')
        \<lparr>conditions := Some \<lparr>rules = Some [\<lparr>ruleQuestionId = Some ''Q4'',
            ruleOperator = Some ''equals'', ruleValue = ''yes''\<rparr>]\<rparr>\<rparr>,
      plainQuestion ''Q4'' ''shortText'']"

definition shownTwice :: world where
  "shownTwice =
     fst (onCheckboxOptionChange answeredYes linkedStep ''Q1'' checkedA
       (fst (refreshConditionalQuestions answeredYes (stepOf linkedStep)
         (fst (renderQuestionsForStep answeredYes (stepOf linkedStep)
           (emptyWorld\<lparr>responses :=
              [''Q4'' \<mapsto> \<lparr>answer = Some (TextValue ''yes''), comment = None\<rparr>]\<rparr>))))))"

definition answerChanged :: world where
  "answerChanged =
     shownTwice\<lparr>responses :=
       [''Q4'' \<mapsto> \<lparr>answer = Some (TextValue ''no''), comment = None\<rparr>]\<rparr>"






section \<open>Properties of template substitution\<close>

lemma replacer_tokenValue:
  "replacer data (token name) name = (case tokenValue data name of Some v \<Rightarrow> v | None \<Rightarrow> token name)"
  by (cases "getProperty data (trim name)") (simp_all add: replacer_def tokenValue_def Let_def)

lemma name_scan:
  assumes "rightBrace \<notin> set name"
  shows "takeWhile (\<lambda>x. x \<noteq> rightBrace) (name @ rightBrace # r) = name"
    and "dropWhile (\<lambda>x. x \<noteq> rightBrace) (name @ rightBrace # r) = rightBrace # r"
  using assms by (induction name) auto

lemma replaceAll_token:
  assumes "isName name"
  shows "replaceAll data (token name @ rest) = replacer data (token name) name @ replaceAll data rest"
proof -
  have "rightBrace \<notin> set name" "name \<noteq> []" using assms by (simp_all add: isName_def)
  with name_scan [of name "rightBrace # rest"] show ?thesis
    by (simp add: Let_def token_def)
qed

lemma scan_tokenAhead:
  assumes "c = leftBrace" and "take 1 cs = [leftBrace]"
    and "takeWhile (\<lambda>x. x \<noteq> rightBrace) (tl cs) \<noteq> []"
    and "take 2 (dropWhile (\<lambda>x. x \<noteq> rightBrace) (tl cs)) = [rightBrace, rightBrace]"
  shows "isName (takeWhile (\<lambda>x. x \<noteq> rightBrace) (tl cs))"
    and "c # cs = token (takeWhile (\<lambda>x. x \<noteq> rightBrace) (tl cs))
                    @ drop 2 (dropWhile (\<lambda>x. x \<noteq> rightBrace) (tl cs))"
proof -
  let ?key = "takeWhile (\<lambda>x. x \<noteq> rightBrace) (tl cs)"
  let ?rest = "dropWhile (\<lambda>x. x \<noteq> rightBrace) (tl cs)"
  show "isName ?key" using assms(3) by (auto simp: isName_def dest: set_takeWhileD)
  have cs: "cs = leftBrace # tl cs" using assms(2) by (cases cs) simp_all
  have "tl cs = ?key @ ?rest" by simp
  moreover have "?rest = [rightBrace, rightBrace] @ drop 2 ?rest"
    using assms(4) append_take_drop_id [of 2 ?rest] by simp
  ultimately have "tl cs = ?key @ [rightBrace, rightBrace] @ drop 2 ?rest" by metis
  with cs assms(1) show "c # cs = token ?key @ drop 2 ?rest"
    by (metis append_Cons append_Nil token_def append_assoc)
qed

lemma replaceAll_substitutes: "substitutes (tokenValue data) s (replaceAll data s)"
proof (induction data s rule: replaceAll.induct)
  case (1 data)
  show ?case by (simp add: substitutes.finished)
next
  case (2 data c cs)
  let ?key = "takeWhile (\<lambda>x. x \<noteq> rightBrace) (tl cs)"
  let ?rest = "dropWhile (\<lambda>x. x \<noteq> rightBrace) (tl cs)"
  show ?case
  proof (cases "c = leftBrace \<and> take 1 cs = [leftBrace] \<and> ?key \<noteq> []
                 \<and> take 2 ?rest = [rightBrace, rightBrace]")
    case True
    from scan_tokenAhead [of c cs] True
    have n: "isName ?key" and eq: "c # cs = token ?key @ drop 2 ?rest" by simp_all
    have ih: "substitutes (tokenValue data) (drop 2 ?rest) (replaceAll data (drop 2 ?rest))"
      using 2(1) [OF _ refl refl] True by simp
    have out: "replaceAll data (c # cs)
        = (case tokenValue data ?key of Some v \<Rightarrow> v | None \<Rightarrow> token ?key)
          @ replaceAll data (drop 2 ?rest)"
      using replaceAll_token [OF n, of data "drop 2 ?rest"] eq
      by (simp only: replacer_tokenValue)
    show ?thesis
    proof (cases "tokenValue data ?key")
      case None
      from substitutes.verbatim [OF n None ih] out None eq show ?thesis by simp
    next
      case (Some v)
      from substitutes.replaced [OF n Some ih] out Some eq show ?thesis by simp
    qed
  next
    case False
    have no: "\<not> tokenAhead (c # cs)"
    proof
      assume "tokenAhead (c # cs)"
      then obtain name rest where nr: "isName name" "c # cs = token name @ rest"
        by (auto simp: tokenAhead_def)
      from nr(2) have c: "c = leftBrace" "cs = leftBrace # name @ rightBrace # rightBrace # rest"
        by (simp_all add: token_def)
      have "rightBrace \<notin> set name" "name \<noteq> []" using nr(1) by (simp_all add: isName_def)
      with name_scan [of name "rightBrace # rest"] False c show False by simp
    qed
    have step: "replaceAll data (c # cs) = c # replaceAll data cs"
      using False by (auto simp: Let_def)
    have ih: "substitutes (tokenValue data) cs (replaceAll data cs)"
      using False 2(2,3) by (auto simp: Let_def)
    from substitutes.copied [OF no ih] step show ?thesis by simp
  qed
qed

lemma substitutes_replaceAll:
  "substitutes (tokenValue data) text out \<Longrightarrow> out = replaceAll data text"
proof (induction rule: substitutes.induct)
  case finished
  show ?case by simp
next
  case (replaced name v rest out)
  with replaceAll_token [of name data rest] show ?case by (simp add: replacer_tokenValue)
next
  case (verbatim name rest out)
  with replaceAll_token [of name data rest] show ?case by (simp add: replacer_tokenValue)
next
  case (copied c cs out)
  have "\<not> (c = leftBrace \<and> take 1 cs = [leftBrace]
            \<and> takeWhile (\<lambda>x. x \<noteq> rightBrace) (tl cs) \<noteq> []
            \<and> take 2 (dropWhile (\<lambda>x. x \<noteq> rightBrace) (tl cs)) = [rightBrace, rightBrace])"
    using scan_tokenAhead [of c cs] copied(1) by (auto simp: tokenAhead_def)
  then have "replaceAll data (c # cs) = c # replaceAll data cs" by (auto simp: Let_def)
  with copied show ?case by simp
qed

lemma processTemplate_replaceAll: "processTemplate text (Some data) = replaceAll data text"
  by (simp add: processTemplate_def)

text \<open>
  A name that is not a key of the context is replaced all the same when \<open>Object.prototype\<close>
  has a property of that name; and a key whose value is \<open>undefined\<close> is not replaced.
\<close>

theorem inherited_name_is_replaced:
  "[js ''option'' \<mapsto> StringValue (js ''Tea'')] (js ''constructor'') = None
   \<and> processTemplate (js ''{{constructor}}'') (Some [js ''option'' \<mapsto> StringValue (js ''Tea'')])
       = js ''function Object() { [native code] }''
   \<and> [js ''option'' \<mapsto> Undefined] (js ''option'') = Some Undefined
   \<and> processTemplate (js ''{{option}}'') (Some [js ''option'' \<mapsto> Undefined]) = js ''{{option}}''"
  by (simp add: processTemplate_def replacer_def trim_def isWhiteSpace_def getProperty_def
      objectPrototype_def js_def leftBrace_def rightBrace_def)

text \<open>
  Claim C8, amended. Template substitution is a function of the text and the context
  alone. For every text and every context, the result is the substitution of the text,
  read from the left: each token \<open>{{name}}\<close> is replaced by the value that the context
  gives the name, or passes through verbatim when it gives none, and every other code
  unit is copied. An own key of the context (the name of the token with the white space
  around it removed) whose value is not \<open>undefined\<close> gives the name that value, as a
  string; a name whose own value is \<open>undefined\<close>, or that is neither an own key nor the
  name of a property of \<open>Object.prototype\<close>, is given no value. Without a context the text
  is returned as it is.
\<close>

theorem processTemplate_substitutes_tokens:
  "(substitutes (tokenValue data) text out \<longleftrightarrow> out = processTemplate text (Some data))
   \<and> (data (trim name) = Some v \<and> v \<noteq> Undefined \<longrightarrow> tokenValue data name = Some (toString v))
   \<and> (data (trim name) = Some Undefined
        \<or> (data (trim name) = None \<and> objectPrototype (trim name) = Undefined)
      \<longrightarrow> tokenValue data name = None)
   \<and> processTemplate text None = text"
proof (intro conjI impI iffI)
  assume "substitutes (tokenValue data) text out"
  then show "out = processTemplate text (Some data)"
    using substitutes_replaceAll [of data "text" out] by (simp add: processTemplate_replaceAll)
next
  assume "out = processTemplate text (Some data)"
  then show "substitutes (tokenValue data) text out"
    using replaceAll_substitutes [of data "text"] by (simp add: processTemplate_replaceAll)
next
  assume "data (trim name) = Some v \<and> v \<noteq> Undefined"
  then show "tokenValue data name = Some (toString v)"
    by (cases v) (simp_all add: tokenValue_def getProperty_def)
next
  assume "data (trim name) = Some Undefined
        \<or> (data (trim name) = None \<and> objectPrototype (trim name) = Undefined)"
  then show "tokenValue data name = None"
    by (auto simp: tokenValue_def getProperty_def)
next
  show "processTemplate text None = text" by (simp add: processTemplate_def)
qed

theorem processTemplate_substitutes_tokens_witness:
  "[js ''option'' \<mapsto> StringValue (js ''Tea'')] (trim ([0x00A0, 0x2003] @ js ''option ''))
     = Some (StringValue (js ''Tea''))
   \<and> StringValue (js ''Tea'') \<noteq> Undefined
   \<and> tokenValue [js ''option'' \<mapsto> StringValue (js ''Tea'')] ([0x00A0, 0x2003] @ js ''option '')
     = Some (js ''Tea'')
   \<and> [js ''option'' \<mapsto> StringValue (js ''Tea'')] (trim (js ''x'')) = None
   \<and> objectPrototype (trim (js ''x'')) = Undefined
   \<and> tokenValue [js ''option'' \<mapsto> StringValue (js ''Tea'')] (js ''x'') = None
   \<and> substitutes (tokenValue [js ''option'' \<mapsto> StringValue (js ''Tea'')])
        (js ''Why {{'' @ [0x00A0, 0x2003] @ js ''option }}? {a} {{x}} {{}} {{'')
        (js ''Why Tea? {a} {{x}} {{}} {{'')"
  using processTemplate_substitutes_tokens
    [of "[js ''option'' \<mapsto> StringValue (js ''Tea'')]"
        "js ''Why {{'' @ [0x00A0, 0x2003] @ js ''option }}? {a} {{x}} {{}} {{''"
        "js ''Why Tea? {a} {{x}} {{}} {{''"
        "[0x00A0, 0x2003] @ js ''option ''" "StringValue (js ''Tea'')"]
    processTemplate_substitutes_tokens
    [of "[js ''option'' \<mapsto> StringValue (js ''Tea'')]" "[]" "[]" "js ''x''" Undefined]
  by (simp add: processTemplate_def replacer_def trim_def isWhiteSpace_def getProperty_def
      objectPrototype_def js_def leftBrace_def rightBrace_def)

section \<open>Evaluating the examples\<close>

lemmas example_defs = stepOf_def conditionalQuestion_def plainQuestion_def emptyWorld_def showAll_def
lemmas refresh_defs = refreshConditionalQuestions_def Let_def refreshQuestion_def getElementById_def
  renderQuestion_def createQuestionContainer_def renderInput_def renderShortText_def
  renderLongText_def renderRadio_def renderCheckbox_def readsIsOtherOfNull_def
  legacyListFails_def placeQuestion_def laterQuestions_def
  truthy_def questionElementId_def setTimeout_def insertAt_def removeAt_def

lemmas first_defs = renderQuestionsForStep_def renderStandardQuestion_def
  renderOptionSpecificQuestion_def isOptionChecked_def optionLabelFor_def

lemmas order_defs = standardInOrder_def standardIndices_def standardIndex_def stepIndex_def
  allInOrder_def renderedIndices_def

lemmas option_defs = handleOptionQuestion_def placeOptionQuestion_def matchesOptionQuestion_def
  matchesQuestion_def matchesLinked_def onCheckboxOptionChange_def

section \<open>Lists and trees\<close>

lemma findIndex_None: "findIndex P xs = None \<longleftrightarrow> (\<forall>x \<in> set xs. \<not> P x)"
  by (induction xs) auto

lemma findIndex_Some:
  "findIndex P xs = Some k \<Longrightarrow> k < length xs \<and> P (xs ! k) \<and> (\<forall>j < k. \<not> P (xs ! j))"
proof (induction xs arbitrary: k)
  case Nil
  then show ?case by simp
next
  case (Cons x xs)
  show ?case
  proof (cases "P x")
    case True
    with Cons.prems show ?thesis by simp
  next
    case False
    with Cons.prems obtain k' where k': "findIndex P xs = Some k'" "k = Suc k'" by auto
    from Cons.IH [OF k'(1)] False k'(2) show ?thesis
      by (auto simp: nth_Cons split: nat.splits)
  qed
qed

lemma filter_insertAt:
  "filter P (insertAt k x xs) =
     filter P (take k xs) @ (if P x then [x] else []) @ filter P (drop k xs)"
  by (simp add: insertAt_def)

lemma length_filter_insertAt:
  "length (filter P (insertAt k x xs)) = length (filter P xs) + (if P x then 1 else 0)"
proof -
  have "length (filter P xs) = length (filter P (take k xs)) + length (filter P (drop k xs))"
    by (metis append_take_drop_id filter_append length_append)
  then show ?thesis by (simp add: filter_insertAt)
qed

lemma removeAt_Cons:
  "removeAt k (x # xs) = (case k of 0 \<Rightarrow> xs | Suc j \<Rightarrow> x # removeAt j xs)"
  by (simp add: removeAt_def split: nat.splits)

lemma length_filter_removeAt:
  "k < length xs \<Longrightarrow>
   length (filter P (removeAt k xs)) = length (filter P xs) - (if P (xs ! k) then 1 else 0)"
proof (induction xs arbitrary: k)
  case Nil
  then show ?case by simp
next
  case (Cons x xs)
  show ?case
  proof (cases k)
    case 0
    then show ?thesis by (simp add: removeAt_Cons)
  next
    case (Suc j)
    with Cons.prems have j: "j < length xs" by simp
    have "P (xs ! j) \<Longrightarrow> 0 < length (filter P xs)"
      using j by (metis filter_empty_conv length_greater_0_conv nth_mem)
    with Cons.IH [OF j] Suc show ?thesis by (auto simp: removeAt_Cons)
  qed
qed

lemma docOrder_removeNode: "docOrder (removeNode t k) = removeAt k (docOrder t)"
proof (cases t)
  case (Flat kids)
  then show ?thesis by simp
next
  case (Wrapped pre inner post)
  then show ?thesis by (simp add: removeAt_def Suc_diff_le)
qed

lemma docOrder_insertBeforeInActual:
  "parentIsActual t k \<Longrightarrow> docOrder (insertBeforeInActual t new k) = insertAt k new (docOrder t)"
proof (cases t)
  case (Flat kids)
  then show ?thesis by simp
next
  case (Wrapped pre inner post)
  assume "parentIsActual t k"
  with Wrapped show ?thesis by (simp add: insertAt_def)
qed

lemma docOrder_appendToActual:
  "docOrder (appendToActual t new) = insertAt (appendPosition t) new (docOrder t)"
  by (cases t) (simp_all add: insertAt_def appendPosition_def)

section \<open>Rendering leaves the tree and the store alone\<close>

lemma setTimeout_frame:
  "tree (snd (setTimeout cb d w)) = tree w"
  "responses (snd (setTimeout cb d w)) = responses w"
  "mutations (snd (setTimeout cb d w)) = mutations w"
  "refreshCalls (snd (setTimeout cb d w)) = refreshCalls w"
  "clock (snd (setTimeout cb d w)) = clock w"
  by (simp_all add: setTimeout_def)

lemma renderInput_frame:
  assumes "renderInput ev q w = Some (r, w1)"
  shows "tree w1 = tree w \<and> responses w1 = responses w \<and> mutations w1 = mutations w
         \<and> refreshCalls w1 = refreshCalls w \<and> clock w1 = clock w"
  using assms
  by (auto simp: renderInput_def renderShortText_def renderLongText_def renderRadio_def
      renderCheckbox_def setTimeout_frame split: if_splits option.splits)

lemma renderQuestion_frame:
  assumes "renderQuestion ev qo td w = (r, w1)"
  shows "tree w1 = tree w \<and> responses w1 = responses w \<and> mutations w1 = mutations w
         \<and> refreshCalls w1 = refreshCalls w \<and> clock w1 = clock w"
proof (cases qo)
  case None
  with assms show ?thesis by (simp add: renderQuestion_def)
next
  case (Some q)
  let ?w0 = "w\<lparr>nextRef := Suc (nextRef w)\<rparr>"
  show ?thesis
  proof (cases "renderInput ev q ?w0")
    case None
    with assms Some show ?thesis
      by (auto simp: renderQuestion_def createQuestionContainer_def Let_def)
  next
    case (Some a)
    obtain r2 w2 where a: "a = (r2, w2)" by (cases a)
    from renderInput_frame [of ev q ?w0 r2 w2] Some a
    have "tree w2 = tree w \<and> responses w2 = responses w \<and> mutations w2 = mutations w
         \<and> refreshCalls w2 = refreshCalls w \<and> clock w2 = clock w" by simp
    moreover have "w1 = w2"
      using assms \<open>qo = Some q\<close> Some a
      by (auto simp: renderQuestion_def createQuestionContainer_def Let_def split: sum.splits)
    ultimately show ?thesis by simp
  qed
qed

text \<open>
  Claim C10. \<open>renderQuestion\<close> returns \<open>null\<close>, without an exception, when the question is
  missing, and when its type is none of the ten known types; in the second case the view
  tree is as it was and no structural operation was made on it.
\<close>

theorem renderQuestion_null_for_unknown:
  "renderQuestion ev None td w = (Inr None, w) \<and>
   (qtype q \<notin> set QUESTION_TYPES \<longrightarrow>
      fst (renderQuestion ev (Some q) td w) = Inr None
      \<and> tree (snd (renderQuestion ev (Some q) td w)) = tree w
      \<and> mutations (snd (renderQuestion ev (Some q) td w)) = mutations w)"
proof -
  have a: "renderQuestion ev None td w = (Inr None, w)"
    by (simp add: renderQuestion_def)
  have b: "fst (renderQuestion ev (Some q) td w) = Inr None" if "qtype q \<notin> set QUESTION_TYPES"
    using that
    by (simp add: renderQuestion_def createQuestionContainer_def renderInput_def
        QUESTION_TYPES_def Let_def)
  have c: "tree (snd (renderQuestion ev (Some q) td w)) = tree w
     \<and> mutations (snd (renderQuestion ev (Some q) td w)) = mutations w"
    using renderQuestion_frame [of ev "Some q" td w]
    by (cases "renderQuestion ev (Some q) td w") simp
  from a b c show ?thesis by blast
qed

theorem renderQuestion_null_for_unknown_witness:
  "qtype (plainQuestion ''Q1'' ''dropdown'') \<notin> set QUESTION_TYPES \<and>
   fst (renderQuestion showAll (Some (plainQuestion ''Q1'' ''dropdown'')) None emptyWorld)
     = Inr None \<and>
   tree (snd (renderQuestion showAll (Some (plainQuestion ''Q1'' ''dropdown'')) None emptyWorld))
     = Flat []"
  using renderQuestion_null_for_unknown
    [of showAll None emptyWorld "plainQuestion ''Q1'' ''dropdown''"]
  by (simp add: plainQuestion_def QUESTION_TYPES_def emptyWorld_def)

section \<open>One question of a refresh pass\<close>

lemma renderQuestion_Some_new:
  assumes "renderQuestion ev (Some q) td w = (Inr (Some new), w1)"
  shows "elementId new = questionElementId (qid q) \<and> dataQuestionId new = Some (qid q)
         \<and> ''survey-question'' \<in> set (classList new) \<and> ref new = nextRef w
         \<and> dataForOptionId new = None \<and> dataLinkedQuestionId new = None"
  using assms
  by (auto simp: renderQuestion_def createQuestionContainer_def Let_def
      split: option.splits sum.splits prod.splits)

lemma renderInput_fst:
  "responses w = responses w' \<Longrightarrow>
   map_option fst (renderInput ev q w) = map_option fst (renderInput ev q w')"
  by (simp add: renderInput_def renderShortText_def renderLongText_def renderRadio_def
      renderCheckbox_def split: option.splits)

lemma renderOutcome_alt:
  "renderOutcome ev w q =
     (case map_option fst (renderInput ev q (w\<lparr>nextRef := Suc (nextRef w)\<rparr>)) of
        None \<Rightarrow> Inr False
      | Some (Inl f) \<Rightarrow> Inl f
      | Some (Inr b) \<Rightarrow> Inr True)"
  by (auto simp: renderOutcome_def renderQuestion_def createQuestionContainer_def Let_def
      split: option.splits sum.splits prod.splits)

lemma renderOutcome_cong:
  assumes "responses w = responses w'"
  shows "renderOutcome ev w q = renderOutcome ev w' q"
proof -
  have "map_option fst (renderInput ev q (w\<lparr>nextRef := Suc (nextRef w)\<rparr>))
      = map_option fst (renderInput ev q (w'\<lparr>nextRef := Suc (nextRef w')\<rparr>))"
    using assms by (intro renderInput_fst) simp
  then show ?thesis by (simp only: renderOutcome_alt)
qed

lemma renderOutcome_cases:
  assumes "renderQuestion ev (Some q) None w = (r, w1)"
  shows "(case r of Inl f \<Rightarrow> renderOutcome ev w q = Inl f
          | Inr None \<Rightarrow> renderOutcome ev w q = Inr False
          | Inr (Some new) \<Rightarrow> renderOutcome ev w q = Inr True)"
  using assms by (auto simp: renderOutcome_def split: sum.splits option.splits)

lemma findAnchor_actual: "findAnchor t later = Some k \<Longrightarrow> parentIsActual t k"
  by (induction later) (auto split: option.splits if_splits)

lemma placeQuestion_effect:
  "\<exists>m. docOrder (tree (placeQuestion qs q new w)) = insertAt m new (docOrder (tree w))"
proof (cases "findAnchor (tree w) (laterQuestions qs q)")
  case None
  then show ?thesis
    by (auto simp: placeQuestion_def docOrder_appendToActual)
next
  case (Some k)
  then show ?thesis
    using findAnchor_actual [OF Some]
    by (auto simp: placeQuestion_def docOrder_insertBeforeInActual)
qed

lemma placeQuestion_frame:
  "responses (placeQuestion qs q new w) = responses w"
  "mutations (placeQuestion qs q new w) = mutations w @ [Inserted (ref new)]"
  "refreshCalls (placeQuestion qs q new w) = refreshCalls w"
  by (simp_all add: placeQuestion_def split: option.splits)


lemma refreshQuestion_cases:
  obtains
    (NoCond) "conditions q = None" "refreshQuestion ev qs q w = (w, None)"
  | (Throws) f w1 where "conditions q \<noteq> None" "shouldShowQuestion ev (responses w) q"
      "getElementById (tree w) (questionElementId (qid q)) = None" "renderOutcome ev w q = Inl f"
      "refreshQuestion ev qs q w = (w1, Some f)" "tree w1 = tree w"
      "mutations w1 = mutations w" "responses w1 = responses w" "refreshCalls w1 = refreshCalls w"
  | (Null) w1 where "conditions q \<noteq> None" "shouldShowQuestion ev (responses w) q"
      "getElementById (tree w) (questionElementId (qid q)) = None" "renderOutcome ev w q = Inr False"
      "refreshQuestion ev qs q w = (w1, None)" "tree w1 = tree w"
      "mutations w1 = mutations w" "responses w1 = responses w" "refreshCalls w1 = refreshCalls w"
  | (Insert) w1 new m where "conditions q \<noteq> None" "shouldShowQuestion ev (responses w) q"
      "getElementById (tree w) (questionElementId (qid q)) = None" "renderOutcome ev w q = Inr True"
      "refreshQuestion ev qs q w = (w1, None)" "elementId new = questionElementId (qid q)"
      "docOrder (tree w1) = insertAt m new (docOrder (tree w))"
      "mutations w1 = mutations w @ [Inserted (ref new)]" "responses w1 = responses w"
      "refreshCalls w1 = refreshCalls w"
  | (Keep) "conditions q \<noteq> None" "shouldShowQuestion ev (responses w) q"
      "getElementById (tree w) (questionElementId (qid q)) \<noteq> None"
      "refreshQuestion ev qs q w = (w, None)"
  | (Remove) k w1 where "conditions q \<noteq> None" "\<not> shouldShowQuestion ev (responses w) q"
      "getElementById (tree w) (questionElementId (qid q)) = Some k"
      "refreshQuestion ev qs q w = (w1, None)"
      "docOrder (tree w1) = removeAt k (docOrder (tree w))"
      "mutations w1 = mutations w @ [Removed (ref (docOrder (tree w) ! k))]"
      "responses w1 = responses w" "refreshCalls w1 = refreshCalls w"
  | (Hidden) "conditions q \<noteq> None" "\<not> shouldShowQuestion ev (responses w) q"
      "getElementById (tree w) (questionElementId (qid q)) = None"
      "refreshQuestion ev qs q w = (w, None)"
proof (cases "conditions q = None")
  case True
  have rf: "refreshQuestion ev qs q w = (w, None)"
    using True by (auto simp: refreshQuestion_def)
  show ?thesis using NoCond [OF True rf] .
next
  case cond: False
  show ?thesis
  proof (cases "shouldShowQuestion ev (responses w) q")
    case sh: True
    show ?thesis
    proof (cases "getElementById (tree w) (questionElementId (qid q))")
      case None
      obtain r w1 where rq: "renderQuestion ev (Some q) None w = (r, w1)"
        by (cases "renderQuestion ev (Some q) None w")
      note fr = renderQuestion_frame [OF rq]
      note oc = renderOutcome_cases [OF rq]
      show ?thesis
      proof (cases r)
        case (Inl f)
        have rf: "refreshQuestion ev qs q w = (w1, Some f)"
          using cond sh None rq Inl by (auto simp: refreshQuestion_def)
        have "renderOutcome ev w q = Inl f" using oc Inl by simp
        then show ?thesis using Throws [OF cond sh None _ rf] fr by simp
      next
        case (Inr eo)
        show ?thesis
        proof (cases eo)
          case eoNone: None
          have rf: "refreshQuestion ev qs q w = (w1, None)"
            using cond sh None rq Inr eoNone by (auto simp: refreshQuestion_def)
          have "renderOutcome ev w q = Inr False" using oc Inr eoNone by simp
          then show ?thesis using Null [OF cond sh None _ rf] fr by simp
        next
          case (Some new)
          from placeQuestion_effect [of qs q new w1] obtain m where
            m: "docOrder (tree (placeQuestion qs q new w1)) = insertAt m new (docOrder (tree w1))"
            by blast
          have id: "elementId new = questionElementId (qid q)"
            using renderQuestion_Some_new [of ev q None w new w1] rq Inr Some by simp
          have rf: "refreshQuestion ev qs q w = (placeQuestion qs q new w1, None)"
            using Inr Some cond sh None rq by (auto simp: refreshQuestion_def)
          have ro: "renderOutcome ev w q = Inr True" using oc Inr Some by simp
          show ?thesis
            using Insert [OF cond sh None ro rf id] m fr by (simp add: placeQuestion_frame)
        qed
      qed
    next
      case (Some k)
      have rf: "refreshQuestion ev qs q w = (w, None)"
        using cond sh Some by (auto simp: refreshQuestion_def)
      show ?thesis using Keep [OF cond sh _ rf] Some by simp
    qed
  next
    case nsh: False
    show ?thesis
    proof (cases "getElementById (tree w) (questionElementId (qid q))")
      case None
      have rf: "refreshQuestion ev qs q w = (w, None)"
        using cond nsh None by (auto simp: refreshQuestion_def)
      show ?thesis using Hidden [OF cond nsh None rf] .
    next
      case (Some k)
      let ?w1 = "w\<lparr>tree := removeNode (tree w) k,
                 mutations := mutations w @ [Removed (ref (docOrder (tree w) ! k))]\<rparr>"
      have rf: "refreshQuestion ev qs q w = (?w1, None)"
        using cond nsh Some by (auto simp: refreshQuestion_def)
      show ?thesis using Remove [OF cond nsh Some rf] by (simp add: docOrder_removeNode)
    qed
  qed
qed

section \<open>When a question needs no operation\<close>

lemma present_occurrences: "present t i \<longleftrightarrow> 0 < occurrences t i"
  by (auto simp: present_def getElementById_def occurrences_def findIndex_None filter_empty_conv)

lemma getElementById_Some:
  assumes "getElementById t i = Some k"
  shows "k < length (docOrder t)" "elementId (docOrder t ! k) = i"
  using findIndex_Some [of "\<lambda>e. elementId e = i" "docOrder t" k] assms
  by (simp_all add: getElementById_def)

lemma refreshQuestion_responses:
  assumes "refreshQuestion ev qs q w = (w1, r)"
  shows "responses w1 = responses w \<and> refreshCalls w1 = refreshCalls w"
  using assms by (cases rule: refreshQuestion_cases [of q ev qs w]) auto

lemma refreshQuestion_occurrences_other:
  assumes "refreshQuestion ev qs q w = (w1, r)"
    and "conditions q = None \<or> j \<noteq> questionElementId (qid q)"
  shows "occurrences (tree w1) j = occurrences (tree w) j"
proof (cases rule: refreshQuestion_cases [of q ev qs w])
  case (Insert w1' new m)
  with assms show ?thesis by (auto simp: occurrences_def length_filter_insertAt)
next
  case (Remove k w1')
  from getElementById_Some [OF Remove(3)] Remove assms show ?thesis
    by (auto simp: occurrences_def length_filter_removeAt)
qed (use assms in auto)

lemma refreshQuestion_settles:
  assumes "refreshQuestion ev qs q w = (w1, None)"
    and "\<not> shouldShowQuestion ev (responses w) q \<longrightarrow>
           occurrences (tree w) (questionElementId (qid q)) \<le> 1"
  shows "conditions q \<noteq> None \<longrightarrow> settled ev w1 q"
proof (cases rule: refreshQuestion_cases [of q ev qs w])
  case NoCond
  with assms show ?thesis by simp
next
  case (Throws f w1')
  with assms show ?thesis by simp
next
  case (Null w1')
  with assms have "w1' = w1" by simp
  with Null renderOutcome_cong [of w1 w ev q] show ?thesis
    by (simp add: settled_def)
next
  case (Insert w1' new m)
  with assms have eq: "w1' = w1" by simp
  have "occurrences (tree w) (questionElementId (qid q)) = 0"
    using Insert(3) present_occurrences [of "tree w" "questionElementId (qid q)"]
    by (simp add: present_def)
  with Insert eq have "occurrences (tree w1) (questionElementId (qid q)) = 1"
    by (simp add: occurrences_def length_filter_insertAt)
  with Insert eq show ?thesis by (simp add: settled_def present_occurrences)
next
  case Keep
  with assms show ?thesis by (simp add: settled_def present_def)
next
  case (Remove k w1')
  with assms have eq: "w1' = w1" by simp
  from getElementById_Some [OF Remove(3)] Remove eq assms(2)
  have "occurrences (tree w1) (questionElementId (qid q)) = 0"
    by (simp add: occurrences_def length_filter_removeAt)
  with Remove eq show ?thesis by (simp add: settled_def present_occurrences)
next
  case Hidden
  with assms show ?thesis by (simp add: settled_def present_def present_occurrences)
qed

lemma refreshQuestion_quiet:
  assumes "refreshQuestion ev qs q w = (w1, r)"
    and "conditions q = None \<or> settled ev w q"
  shows "r = None \<and> tree w1 = tree w \<and> mutations w1 = mutations w"
  using assms
  by (cases rule: refreshQuestion_cases [of q ev qs w])
     (auto simp: settled_def present_def)

lemma refreshQuestion_stuck:
  assumes "refreshQuestion ev qs q w = (w1, r)"
    and "stuck ev w q f"
  shows "r = Some f \<and> tree w1 = tree w \<and> mutations w1 = mutations w"
  using assms
  by (cases rule: refreshQuestion_cases [of q ev qs w])
     (auto simp: stuck_def present_def)

lemma refreshQuestion_fault:
  assumes "refreshQuestion ev qs q w = (w1, Some f)"
  shows "stuck ev w1 q f \<and> tree w1 = tree w \<and> mutations w1 = mutations w"
proof (cases rule: refreshQuestion_cases [of q ev qs w])
  case (Throws f' w1')
  with assms renderOutcome_cong [of w1 w ev q] show ?thesis
    by (simp add: stuck_def present_def)
qed (use assms in auto)

lemma settled_cong:
  "tree w = tree w' \<Longrightarrow> responses w = responses w' \<Longrightarrow> settled ev w q = settled ev w' q"
  using renderOutcome_cong [of w w' ev q] by (simp add: settled_def)

lemma stuck_cong:
  "tree w = tree w' \<Longrightarrow> responses w = responses w' \<Longrightarrow> stuck ev w q f = stuck ev w' q f"
  using renderOutcome_cong [of w w' ev q] by (simp add: stuck_def)

section \<open>A refresh pass\<close>

lemma questionElementId_inj [simp]: "questionElementId a = questionElementId b \<longleftrightarrow> a = b"
  by (simp add: questionElementId_def)

lemma refreshLoop_responses:
  "refreshLoop ev qs rest w = (w1, r) \<Longrightarrow>
   responses w1 = responses w \<and> refreshCalls w1 = refreshCalls w"
proof (induction rest arbitrary: w)
  case Nil
  then show ?case by simp
next
  case (Cons q rest)
  obtain wa ra where step: "refreshQuestion ev qs q w = (wa, ra)"
    by (cases "refreshQuestion ev qs q w")
  note fr = refreshQuestion_responses [OF step]
  show ?case
  proof (cases ra)
    case None
    with Cons.prems step have "refreshLoop ev qs rest wa = (w1, r)" by simp
    from Cons.IH [OF this] fr show ?thesis by simp
  next
    case (Some f)
    with Cons.prems step fr show ?thesis by simp
  qed
qed

lemma refreshLoop_occurrences_other:
  "refreshLoop ev qs rest w = (w1, r) \<Longrightarrow>
   \<forall>q \<in> set rest. conditions q = None \<or> j \<noteq> questionElementId (qid q) \<Longrightarrow>
   occurrences (tree w1) j = occurrences (tree w) j"
proof (induction rest arbitrary: w)
  case Nil
  then show ?case by simp
next
  case (Cons q rest)
  obtain wa ra where step: "refreshQuestion ev qs q w = (wa, ra)"
    by (cases "refreshQuestion ev qs q w")
  have oc: "occurrences (tree wa) j = occurrences (tree w) j"
    using refreshQuestion_occurrences_other [OF step] Cons.prems(2) by simp
  show ?case
  proof (cases ra)
    case None
    with Cons.prems step have "refreshLoop ev qs rest wa = (w1, r)" by simp
    from Cons.IH [OF this] Cons.prems(2) oc show ?thesis by simp
  next
    case (Some f)
    with Cons.prems step oc show ?thesis by simp
  qed
qed

lemma refreshLoop_settles:
  assumes "refreshLoop ev qs rest w = (w1, r)"
    and "distinct (map qid (filter (\<lambda>q. conditions q \<noteq> None) rest))"
    and "\<forall>q \<in> set rest. conditions q \<noteq> None \<and> \<not> shouldShowQuestion ev (responses w) q \<longrightarrow>
           occurrences (tree w) (questionElementId (qid q)) \<le> 1"
  shows "\<exists>past todo. rest = past @ todo
           \<and> (\<forall>q \<in> set past. conditions q = None \<or> settled ev w1 q)
           \<and> (case r of None \<Rightarrow> todo = []
               | Some f \<Rightarrow> \<exists>qf rest'. todo = qf # rest' \<and> stuck ev w1 qf f)"
  using assms
proof (induction rest arbitrary: w)
  case Nil
  then show ?case by simp
next
  case (Cons q rest)
  obtain wa ra where step: "refreshQuestion ev qs q w = (wa, ra)"
    by (cases "refreshQuestion ev qs q w")
  show ?case
  proof (cases ra)
    case (Some f)
    with Cons.prems(1) step have "w1 = wa" "r = Some f" by simp_all
    with refreshQuestion_fault [of ev qs q w wa f] step Some
    have "stuck ev w1 q f" by simp
    with \<open>r = Some f\<close> show ?thesis
      by (rule_tac x = "[]" in exI, rule_tac x = "q # rest" in exI) simp
  next
    case None
    with Cons.prems(1) step have loop: "refreshLoop ev qs rest wa = (w1, r)" by simp
    have d: "distinct (map qid (filter (\<lambda>q. conditions q \<noteq> None) rest))"
      using Cons.prems(2) by (simp split: if_splits)
    have fresh: "\<forall>p \<in> set rest. conditions p = None \<or> conditions q = None
                   \<or> questionElementId (qid q) \<noteq> questionElementId (qid p)"
      using Cons.prems(2) by (auto split: if_splits)
    have resp: "responses wa = responses w" using refreshQuestion_responses [OF step] by simp
    have u: "\<forall>p \<in> set rest. conditions p \<noteq> None \<and> \<not> shouldShowQuestion ev (responses wa) p \<longrightarrow>
               occurrences (tree wa) (questionElementId (qid p)) \<le> 1"
    proof (intro ballI impI)
      fix p assume p: "p \<in> set rest"
        "conditions p \<noteq> None \<and> \<not> shouldShowQuestion ev (responses wa) p"
      with fresh have "conditions q = None \<or> questionElementId (qid p) \<noteq> questionElementId (qid q)"
        by auto
      from refreshQuestion_occurrences_other [OF step this] Cons.prems(3) p resp
      show "occurrences (tree wa) (questionElementId (qid p)) \<le> 1" by simp
    qed
    from Cons.IH [OF loop d u] obtain past todo where
      ih: "rest = past @ todo" "\<forall>q \<in> set past. conditions q = None \<or> settled ev w1 q"
        "case r of None \<Rightarrow> todo = [] | Some f \<Rightarrow> \<exists>qf rest'. todo = qf # rest' \<and> stuck ev w1 qf f"
      by blast
    have q: "conditions q = None \<or> settled ev w1 q"
    proof (cases "conditions q = None")
      case True
      then show ?thesis by simp
    next
      case False
      have "\<not> shouldShowQuestion ev (responses w) q \<longrightarrow>
              occurrences (tree w) (questionElementId (qid q)) \<le> 1"
        using Cons.prems(3) False by simp
      with refreshQuestion_settles [of ev qs q w wa] step None False
      have sa: "settled ev wa q" by simp
      have "\<forall>p \<in> set rest. conditions p = None \<or> questionElementId (qid q) \<noteq> questionElementId (qid p)"
        using fresh False by auto
      from refreshLoop_occurrences_other [OF loop this]
      have "occurrences (tree w1) (questionElementId (qid q))
          = occurrences (tree wa) (questionElementId (qid q))" .
      moreover have "responses w1 = responses wa"
        using refreshLoop_responses [OF loop] by simp
      ultimately have "settled ev w1 q = settled ev wa q"
        using renderOutcome_cong [of w1 wa ev q]
        by (simp add: settled_def present_occurrences)
      with sa show ?thesis by simp
    qed
    from ih q show ?thesis
      by (rule_tac x = "q # past" in exI, rule_tac x = todo in exI) simp
  qed
qed

lemma refreshLoop_quiet:
  assumes "refreshLoop ev qs (past @ todo) w = (w2, r2)"
    and "\<forall>q \<in> set past. conditions q = None \<or> settled ev w q"
    and "case r of None \<Rightarrow> todo = []
         | Some f \<Rightarrow> \<exists>qf rest'. todo = qf # rest' \<and> stuck ev w qf f"
  shows "r2 = r \<and> tree w2 = tree w \<and> mutations w2 = mutations w"
  using assms
proof (induction past arbitrary: w)
  case Nil
  show ?case
  proof (cases r)
    case None
    with Nil show ?thesis by simp
  next
    case (Some f)
    with Nil.prems(3) obtain qf rest' where t: "todo = qf # rest'" "stuck ev w qf f" by auto
    obtain wa ra where step: "refreshQuestion ev qs qf w = (wa, ra)"
      by (cases "refreshQuestion ev qs qf w")
    from refreshQuestion_stuck [OF step t(2)] step Nil.prems(1) t(1) Some
    show ?thesis by simp
  qed
next
  case (Cons q past)
  obtain wa ra where step: "refreshQuestion ev qs q w = (wa, ra)"
    by (cases "refreshQuestion ev qs q w")
  have "conditions q = None \<or> settled ev w q" using Cons.prems(2) by simp
  from refreshQuestion_quiet [OF step this]
  have qa: "ra = None" "tree wa = tree w" "mutations wa = mutations w" by simp_all
  have ra: "responses wa = responses w" using refreshQuestion_responses [OF step] by simp
  from step qa(1) Cons.prems(1) have loop: "refreshLoop ev qs (past @ todo) wa = (w2, r2)"
    by simp
  have s: "\<forall>q \<in> set past. conditions q = None \<or> settled ev wa q"
    using Cons.prems(2) settled_cong [of wa w ev] qa(2) ra by simp
  have t: "case r of None \<Rightarrow> todo = []
         | Some f \<Rightarrow> \<exists>qf rest'. todo = qf # rest' \<and> stuck ev wa qf f"
    using Cons.prems(3) stuck_cong [of wa w ev] qa(2) ra by (simp split: option.splits)
  from Cons.IH [OF loop s t] qa show ?case by simp
qed

lemma refreshConditionalQuestions_loop:
  "refreshConditionalQuestions ev st w =
     refreshLoop ev (stepQuestions st) (stepQuestions st)
       (w\<lparr>refreshCalls := refreshCalls w @ [clock w]\<rparr>)"
  by (simp add: refreshConditionalQuestions_def stepQuestions_def Let_def split: option.splits)

text \<open>
  Claim C9. A refresh pass leaves the response store as it was.
\<close>

theorem refresh_keeps_responses:
  "responses (fst (refreshConditionalQuestions ev st w)) = responses w"
proof -
  obtain w1 r where "refreshConditionalQuestions ev st w = (w1, r)"
    by (cases "refreshConditionalQuestions ev st w")
  then show ?thesis
    using refreshLoop_responses [of ev "stepQuestions st" "stepQuestions st"
        "w\<lparr>refreshCalls := refreshCalls w @ [clock w]\<rparr>" w1 r]
    by (simp add: refreshConditionalQuestions_loop)
qed

text \<open>
  In the example step the refresh renders \<open>Q2\<close> without the mark of its option, so that
  checking the option renders it again: \<open>Q2\<close> has two elements. When it is to be hidden,
  the first of two refresh calls removes one of them and the second call the other,
  with the response store unchanged between the calls.
\<close>

theorem duplicate_nodes_break_idempotence:
  "distinct (map qid linkedStep)
   \<and> map elementId (docOrder (tree answerChanged))
       = [''question-Q1'', ''question-Q2'', ''question-Q2'', ''question-Q4'']
   \<and> responses (fst (refreshConditionalQuestions answeredYes (stepOf linkedStep) answerChanged))
       = responses answerChanged
   \<and> mutations (fst (refreshConditionalQuestions answeredYes (stepOf linkedStep) answerChanged))
       = mutations answerChanged @ [Removed 3]
   \<and> mutations (fst (refreshConditionalQuestions answeredYes (stepOf linkedStep)
        (fst (refreshConditionalQuestions answeredYes (stepOf linkedStep) answerChanged))))
       = mutations answerChanged @ [Removed 3, Removed 2]"
  by (simp add: answerChanged_def shownTwice_def linkedStep_def answeredYes_def checkedA_def
      optionQuestion_def first_defs option_defs example_defs refresh_defs)

text \<open>
  Claim C2, amended. When the questions with conditions have distinct ids and each of them
  that is to be hidden has at most one element in the tree, a second refresh right after
  a first one makes no structural operation on the view tree: the tree and the record of
  operations are those the first call left, and the second call ends as the first did. A
  question whose element is there exactly when it is to be shown costs a refresh no
  operation.
\<close>

theorem refresh_twice_no_mutation:
  "(distinct (map qid (filter (\<lambda>q. conditions q \<noteq> None) (stepQuestions st)))
    \<and> (\<forall>q \<in> set (stepQuestions st).
          conditions q \<noteq> None \<and> \<not> shouldShowQuestion ev (responses w) q \<longrightarrow>
          occurrences (tree w) (questionElementId (qid q)) \<le> 1)
    \<longrightarrow> tree (fst (refreshConditionalQuestions ev st (fst (refreshConditionalQuestions ev st w))))
          = tree (fst (refreshConditionalQuestions ev st w))
      \<and> mutations (fst (refreshConditionalQuestions ev st (fst (refreshConditionalQuestions ev st w))))
          = mutations (fst (refreshConditionalQuestions ev st w))
      \<and> snd (refreshConditionalQuestions ev st (fst (refreshConditionalQuestions ev st w)))
          = snd (refreshConditionalQuestions ev st w))
   \<and> ((shouldShowQuestion ev (responses w) q \<longleftrightarrow> present (tree w) (questionElementId (qid q)))
      \<longrightarrow> refreshQuestion ev qs q w = (w, None))"
proof (intro conjI impI)
  assume same: "shouldShowQuestion ev (responses w) q
                  \<longleftrightarrow> present (tree w) (questionElementId (qid q))"
  then show "refreshQuestion ev qs q w = (w, None)"
    by (cases rule: refreshQuestion_cases [of q ev qs w]) (auto simp: present_def)
next
  let ?qs = "stepQuestions st"
  let ?w0 = "w\<lparr>refreshCalls := refreshCalls w @ [clock w]\<rparr>"
  assume h: "distinct (map qid (filter (\<lambda>q. conditions q \<noteq> None) ?qs))
    \<and> (\<forall>q \<in> set ?qs. conditions q \<noteq> None \<and> \<not> shouldShowQuestion ev (responses w) q \<longrightarrow>
          occurrences (tree w) (questionElementId (qid q)) \<le> 1)"
  obtain w1 r1 where first: "refreshLoop ev ?qs ?qs ?w0 = (w1, r1)"
    by (cases "refreshLoop ev ?qs ?qs ?w0")
  let ?w1 = "w1\<lparr>refreshCalls := refreshCalls w1 @ [clock w1]\<rparr>"
  obtain w2 r2 where second: "refreshLoop ev ?qs ?qs ?w1 = (w2, r2)"
    by (cases "refreshLoop ev ?qs ?qs ?w1")
  from refreshLoop_settles [OF first] h obtain past todo where
    split: "?qs = past @ todo"
      "\<forall>q \<in> set past. conditions q = None \<or> settled ev w1 q"
      "case r1 of None \<Rightarrow> todo = []
       | Some f \<Rightarrow> \<exists>qf rest'. todo = qf # rest' \<and> stuck ev w1 qf f"
    by auto
  have s: "\<forall>q \<in> set past. conditions q = None \<or> settled ev ?w1 q"
    using split(2) settled_cong [of ?w1 w1 ev] by simp
  have t: "case r1 of None \<Rightarrow> todo = []
       | Some f \<Rightarrow> \<exists>qf rest'. todo = qf # rest' \<and> stuck ev ?w1 qf f"
    using split(3) stuck_cong [of ?w1 w1 ev] by (simp split: option.splits)
  have "refreshLoop ev ?qs (past @ todo) ?w1 = (w2, r2)"
    using second split(1) by simp
  from refreshLoop_quiet [OF this s t]
  have "r2 = r1 \<and> tree w2 = tree w1 \<and> mutations w2 = mutations w1" by simp
  with first second
  have res: "tree (fst (refreshConditionalQuestions ev st (fst (refreshConditionalQuestions ev st w))))
          = tree (fst (refreshConditionalQuestions ev st w))
      \<and> mutations (fst (refreshConditionalQuestions ev st (fst (refreshConditionalQuestions ev st w))))
          = mutations (fst (refreshConditionalQuestions ev st w))
      \<and> snd (refreshConditionalQuestions ev st (fst (refreshConditionalQuestions ev st w)))
          = snd (refreshConditionalQuestions ev st w)"
    by (simp add: refreshConditionalQuestions_loop)
  from res show "tree (fst (refreshConditionalQuestions ev st (fst (refreshConditionalQuestions ev st w))))
          = tree (fst (refreshConditionalQuestions ev st w))" by simp
  from res show "mutations (fst (refreshConditionalQuestions ev st (fst (refreshConditionalQuestions ev st w))))
          = mutations (fst (refreshConditionalQuestions ev st w))" by simp
  from res show "snd (refreshConditionalQuestions ev st (fst (refreshConditionalQuestions ev st w)))
          = snd (refreshConditionalQuestions ev st w)" by simp
qed

theorem refresh_twice_no_mutation_witness:
  "distinct (map qid (filter (\<lambda>q. conditions q \<noteq> None)
      (stepQuestions (stepOf [conditionalQuestion ''Q3'' ''shortText'']))))
   \<and> \<not> shouldShowQuestion answeredYes (responses (emptyWorld\<lparr>tree := Flat [questionNode 0 ''Q3'']\<rparr>))
         (conditionalQuestion ''Q3'' ''shortText'')
   \<and> occurrences (Flat [questionNode 0 ''Q3'']) (questionElementId ''Q3'') \<le> 1
   \<and> mutations (fst (refreshConditionalQuestions answeredYes (stepOf [conditionalQuestion ''Q3'' ''shortText''])
        (fst (refreshConditionalQuestions answeredYes (stepOf [conditionalQuestion ''Q3'' ''shortText''])
           (emptyWorld\<lparr>tree := Flat [questionNode 0 ''Q3'']\<rparr>)))))
      = [Removed 0]
   \<and> mutations (fst (refreshConditionalQuestions answeredYes (stepOf [conditionalQuestion ''Q3'' ''shortText''])
        (emptyWorld\<lparr>tree := Flat [questionNode 0 ''Q3'']\<rparr>)))
      = [Removed 0]
   \<and> \<not> present (Flat [questionNode 0 ''Q3'']) (questionElementId ''Q7'')
   \<and> \<not> shouldShowQuestion answeredYes (responses (emptyWorld\<lparr>tree := Flat [questionNode 0 ''Q3'']\<rparr>))
         (conditionalQuestion ''Q7'' ''shortText'')
   \<and> refreshQuestion answeredYes [conditionalQuestion ''Q7'' ''shortText'']
        (conditionalQuestion ''Q7'' ''shortText'') (emptyWorld\<lparr>tree := Flat [questionNode 0 ''Q3'']\<rparr>)
       = (emptyWorld\<lparr>tree := Flat [questionNode 0 ''Q3'']\<rparr>, None)"
  using refresh_twice_no_mutation
    [where st = "stepOf [conditionalQuestion ''Q3'' ''shortText'']"
       and w = "emptyWorld\<lparr>tree := Flat [questionNode 0 ''Q3'']\<rparr>" and ev = answeredYes
       and q = "conditionalQuestion ''Q7'' ''shortText''"
       and qs = "[conditionalQuestion ''Q7'' ''shortText'']"]
  by (simp add: example_defs refresh_defs stepQuestions_def occurrences_def answeredYes_def
      questionNode_def present_def)

section \<open>What a refresh pass reaches\<close>

lemma refreshQuestion_count:
  assumes "refreshQuestion ev qs q w = (w1, None)" and "conditions q \<noteq> None"
  shows "occurrences (tree w1) (questionElementId (qid q)) = refreshedCount ev w q"
proof (cases rule: refreshQuestion_cases [of q ev qs w])
  case NoCond
  with assms show ?thesis by simp
next
  case (Throws f w1')
  with assms show ?thesis by simp
next
  case (Null w1')
  with assms show ?thesis by (simp add: refreshedCount_def)
next
  case (Insert w1' new m)
  with assms have eq: "w1' = w1" by simp
  have "occurrences (tree w) (questionElementId (qid q)) = 0"
    using Insert(3) present_occurrences [of "tree w" "questionElementId (qid q)"]
    by (simp add: present_def)
  with Insert eq show ?thesis
    by (simp add: refreshedCount_def present_def occurrences_def length_filter_insertAt)
next
  case Keep
  with assms show ?thesis by (simp add: refreshedCount_def present_def)
next
  case (Remove k w1')
  with assms have eq: "w1' = w1" by simp
  from getElementById_Some [OF Remove(3)] Remove eq show ?thesis
    by (simp add: refreshedCount_def occurrences_def length_filter_removeAt)
next
  case Hidden
  then have "occurrences (tree w) (questionElementId (qid q)) = 0"
    using present_occurrences [of "tree w" "questionElementId (qid q)"]
    by (simp add: present_def)
  with Hidden assms show ?thesis by (simp add: refreshedCount_def)
qed

lemma refreshedCount_cong:
  assumes "responses w' = responses w"
    and "occurrences (tree w') (questionElementId (qid q)) = occurrences (tree w) (questionElementId (qid q))"
  shows "refreshedCount ev w' q = refreshedCount ev w q"
  using assms renderOutcome_cong [OF assms(1), of ev q]
  by (simp add: refreshedCount_def present_occurrences)

lemma mustRender_cong:
  assumes "responses w' = responses w"
    and "occurrences (tree w') (questionElementId (qid q)) = occurrences (tree w) (questionElementId (qid q))"
  shows "mustRender ev w' q = mustRender ev w q"
  using assms by (simp add: mustRender_def present_occurrences)

lemma refreshLoop_count:
  assumes "refreshLoop ev qs rest w = (w1, None)"
    and "distinct (map qid (filter (\<lambda>q. conditions q \<noteq> None) rest))"
  shows "\<forall>q \<in> set rest. conditions q \<noteq> None \<longrightarrow>
           occurrences (tree w1) (questionElementId (qid q)) = refreshedCount ev w q"
  using assms
proof (induction rest arbitrary: w)
  case Nil
  then show ?case by simp
next
  case (Cons q rest)
  obtain wa ra where step: "refreshQuestion ev qs q w = (wa, ra)"
    by (cases "refreshQuestion ev qs q w")
  have ra: "ra = None" using Cons.prems(1) step by (cases ra) simp_all
  with Cons.prems(1) step have loop: "refreshLoop ev qs rest wa = (w1, None)" by simp
  have resp: "responses wa = responses w" using refreshQuestion_responses [OF step] by simp
  have d: "distinct (map qid (filter (\<lambda>q. conditions q \<noteq> None) rest))"
    using Cons.prems(2) by (simp split: if_splits)
  have fresh: "\<forall>p \<in> set rest. conditions p = None \<or> conditions q = None
                 \<or> questionElementId (qid q) \<noteq> questionElementId (qid p)"
    using Cons.prems(2) by (auto split: if_splits)
  have same: "occurrences (tree wa) (questionElementId (qid p)) = occurrences (tree w) (questionElementId (qid p))"
    if "p \<in> set rest" "conditions p \<noteq> None" for p
  proof -
    from that fresh have "conditions q = None \<or> questionElementId (qid p) \<noteq> questionElementId (qid q)"
      by auto
    from refreshQuestion_occurrences_other [OF step this] show ?thesis .
  qed
  note ih = Cons.IH [OF loop d]
  show ?case
  proof (intro ballI impI)
    fix p assume p: "p \<in> set (q # rest)" "conditions p \<noteq> None"
    show "occurrences (tree w1) (questionElementId (qid p)) = refreshedCount ev w p"
    proof (cases "p \<in> set rest")
      case True
      with ih p(2) have "occurrences (tree w1) (questionElementId (qid p)) = refreshedCount ev wa p"
        by simp
      with refreshedCount_cong [OF resp same [OF True p(2)], of ev] show ?thesis by simp
    next
      case False
      with p have pq: "p = q" by simp
      from refreshQuestion_count [of ev qs q w wa] step ra p(2) pq
      have a: "occurrences (tree wa) (questionElementId (qid q)) = refreshedCount ev w q" by simp
      have "\<forall>p \<in> set rest. conditions p = None \<or> questionElementId (qid q) \<noteq> questionElementId (qid p)"
        using fresh p(2) pq by auto
      from refreshLoop_occurrences_other [OF loop this] a pq show ?thesis by simp
    qed
  qed
qed

lemma refreshLoop_no_fault:
  assumes "refreshLoop ev qs rest w = (w1, r)"
    and "distinct (map qid (filter (\<lambda>q. conditions q \<noteq> None) rest))"
    and "\<forall>q \<in> set rest. mustRender ev w q \<longrightarrow> \<not> isl (renderOutcome ev w q)"
  shows "r = None"
  using assms
proof (induction rest arbitrary: w)
  case Nil
  then show ?case by simp
next
  case (Cons q rest)
  obtain wa ra where step: "refreshQuestion ev qs q w = (wa, ra)"
    by (cases "refreshQuestion ev qs q w")
  have resp: "responses wa = responses w" using refreshQuestion_responses [OF step] by simp
  show ?case
  proof (cases ra)
    case None
    with Cons.prems(1) step have loop: "refreshLoop ev qs rest wa = (w1, r)" by simp
    have d: "distinct (map qid (filter (\<lambda>q. conditions q \<noteq> None) rest))"
      using Cons.prems(2) by (simp split: if_splits)
    have fresh: "\<forall>p \<in> set rest. conditions p = None \<or> conditions q = None
                   \<or> questionElementId (qid q) \<noteq> questionElementId (qid p)"
      using Cons.prems(2) by (auto split: if_splits)
    have "\<forall>p \<in> set rest. mustRender ev wa p \<longrightarrow> \<not> isl (renderOutcome ev wa p)"
    proof (intro ballI impI)
      fix p assume p: "p \<in> set rest" "mustRender ev wa p"
      then have c: "conditions p \<noteq> None" by (simp add: mustRender_def)
      with p(1) fresh have "conditions q = None \<or> questionElementId (qid p) \<noteq> questionElementId (qid q)"
        by auto
      from refreshQuestion_occurrences_other [OF step this]
      have "mustRender ev wa p = mustRender ev w p" using mustRender_cong [OF resp] by simp
      with p Cons.prems(3) renderOutcome_cong [OF resp, of ev p]
      show "\<not> isl (renderOutcome ev wa p)" by simp
    qed
    from Cons.IH [OF loop d this] show ?thesis .
  next
    case (Some f)
    from step Some have "mustRender ev w q \<and> renderOutcome ev w q = Inl f"
      by (cases rule: refreshQuestion_cases [of q ev qs w])
         (simp_all add: mustRender_def present_def)
    with Cons.prems(3) show ?thesis by simp
  qed
qed

section \<open>Malformed rules\<close>

text \<open>
  A radio question without options stands before a question with a malformed rule that
  has an element. The radio question is to be shown, \<open>renderRadio\<close> throws, the exception
  leaves the pass, and the question with the malformed rule still has its element.
\<close>

theorem malformed_question_stays_rendered:
  "malformedRule [''equals'']
     \<lparr>ruleQuestionId = Some ''Q1'', ruleOperator = Some ''resembles'', ruleValue = ''yes''\<rparr>
   \<and> \<not> shouldShowQuestion strictEnv (responses emptyWorld) malformedQuestion
   \<and> snd (refreshConditionalQuestions strictEnv
            (stepOf [conditionalQuestion ''Qa'' ''radio'', malformedQuestion])
            (emptyWorld\<lparr>tree := Flat [questionNode 0 ''Q3'']\<rparr>)) = Some TypeError
   \<and> present (tree (fst (refreshConditionalQuestions strictEnv
            (stepOf [conditionalQuestion ''Qa'' ''radio'', malformedQuestion])
            (emptyWorld\<lparr>tree := Flat [questionNode 0 ''Q3'']\<rparr>)))) (questionElementId ''Q3'')"
  by (simp add: strictEnv_def malformedQuestion_def questionNode_def conditionOracle_def
      malformedRule_def example_defs refresh_defs present_def)

text \<open>
  Claim C5, amended. With the evaluator of the specification, a question whose condition
  set holds a malformed rule is not to be shown, and handling it in a refresh raises
  nothing. When the questions with conditions have distinct ids and no renderer throws
  for a question that the pass has to render, the pass raises nothing and detaches one
  element of the question: afterwards the question has one element fewer, and none if it
  had at most one.
\<close>

theorem malformed_rule_hides_question:
  assumes "shouldShowQuestion ev = conditionOracle known satisfied"
    and "q \<in> set (stepQuestions st)"
    and "conditions q = Some cs" and "rules cs = Some rs"
    and "r \<in> set rs" and "malformedRule known r"
    and "distinct (map qid (filter (\<lambda>q. conditions q \<noteq> None) (stepQuestions st)))"
    and "\<forall>p \<in> set (stepQuestions st). mustRender ev w p \<longrightarrow> \<not> isl (renderOutcome ev w p)"
  shows "\<not> shouldShowQuestion ev store q
         \<and> snd (refreshQuestion ev qs q w') = None
         \<and> snd (refreshConditionalQuestions ev st w) = None
         \<and> occurrences (tree (fst (refreshConditionalQuestions ev st w))) (questionElementId (qid q))
             = occurrences (tree w) (questionElementId (qid q)) - 1
         \<and> (occurrences (tree w) (questionElementId (qid q)) \<le> 1 \<longrightarrow>
              \<not> present (tree (fst (refreshConditionalQuestions ev st w))) (questionElementId (qid q)))"
proof -
  have hide: "\<not> shouldShowQuestion ev store' q" for store'
    using assms(1,3,4,5,6) by (auto simp: conditionOracle_def list_ex_iff)
  have quiet: "snd (refreshQuestion ev qs q w') = None"
    using hide [of "responses w'"]
    by (cases rule: refreshQuestion_cases [of q ev qs w']) simp_all
  let ?qs = "stepQuestions st"
  let ?w0 = "w\<lparr>refreshCalls := refreshCalls w @ [clock w]\<rparr>"
  obtain w1 r1 where loop: "refreshLoop ev ?qs ?qs ?w0 = (w1, r1)"
    by (cases "refreshLoop ev ?qs ?qs ?w0")
  have m: "mustRender ev ?w0 p = mustRender ev w p" for p
    by (rule mustRender_cong) simp_all
  have oc: "renderOutcome ev ?w0 p = renderOutcome ev w p" for p
    by (rule renderOutcome_cong) simp
  have "\<forall>p \<in> set ?qs. mustRender ev ?w0 p \<longrightarrow> \<not> isl (renderOutcome ev ?w0 p)"
    using assms(8) m oc by simp
  from refreshLoop_no_fault [OF loop assms(7) this] have r1: "r1 = None" .
  have "refreshedCount ev ?w0 q = occurrences (tree w) (questionElementId (qid q)) - 1"
    using hide [of "responses w"] by (simp add: refreshedCount_def)
  with refreshLoop_count [OF loop [unfolded r1] assms(7)] assms(2,3)
  have cnt: "occurrences (tree w1) (questionElementId (qid q))
        = occurrences (tree w) (questionElementId (qid q)) - 1"
    by auto
  then have "occurrences (tree w) (questionElementId (qid q)) \<le> 1 \<longrightarrow>
      \<not> present (tree w1) (questionElementId (qid q))"
    by (simp add: present_occurrences)
  with cnt loop r1 hide quiet show ?thesis by (simp add: refreshConditionalQuestions_loop)
qed

theorem malformed_rule_hides_question_witness:
  "shouldShowQuestion strictEnv = conditionOracle [''equals''] (\<lambda>store q. True)
   \<and> malformedQuestion \<in> set (stepQuestions (stepOf [conditionalQuestion ''Qa'' ''shortText'', malformedQuestion]))
   \<and> malformedRule [''equals'']
        \<lparr>ruleQuestionId = Some ''Q1'', ruleOperator = Some ''resembles'', ruleValue = ''yes''\<rparr>
   \<and> distinct (map qid (filter (\<lambda>q. conditions q \<noteq> None)
        (stepQuestions (stepOf [conditionalQuestion ''Qa'' ''shortText'', malformedQuestion]))))
   \<and> mustRender strictEnv (emptyWorld\<lparr>tree := Flat [questionNode 0 ''Q3'']\<rparr>)
        (conditionalQuestion ''Qa'' ''shortText'')
   \<and> \<not> isl (renderOutcome strictEnv (emptyWorld\<lparr>tree := Flat [questionNode 0 ''Q3'']\<rparr>)
        (conditionalQuestion ''Qa'' ''shortText''))
   \<and> \<not> mustRender strictEnv (emptyWorld\<lparr>tree := Flat [questionNode 0 ''Q3'']\<rparr>) malformedQuestion
   \<and> occurrences (Flat [questionNode 0 ''Q3'']) (questionElementId ''Q3'') = 1
   \<and> snd (refreshConditionalQuestions strictEnv
            (stepOf [conditionalQuestion ''Qa'' ''shortText'', malformedQuestion])
            (emptyWorld\<lparr>tree := Flat [questionNode 0 ''Q3'']\<rparr>)) = None
   \<and> occurrences (tree (fst (refreshConditionalQuestions strictEnv
            (stepOf [conditionalQuestion ''Qa'' ''shortText'', malformedQuestion])
            (emptyWorld\<lparr>tree := Flat [questionNode 0 ''Q3'']\<rparr>)))) (questionElementId ''Q3'') = 0
   \<and> \<not> present (tree (fst (refreshConditionalQuestions strictEnv
            (stepOf [conditionalQuestion ''Qa'' ''shortText'', malformedQuestion])
            (emptyWorld\<lparr>tree := Flat [questionNode 0 ''Q3'']\<rparr>)))) (questionElementId ''Q3'')"
  using malformed_rule_hides_question
    [where ev = strictEnv and known = "[''equals'']" and satisfied = "\<lambda>store q. True"
       and q = malformedQuestion
       and st = "stepOf [conditionalQuestion ''Qa'' ''shortText'', malformedQuestion]"
       and cs = "\<lparr>rules = Some [\<lparr>ruleQuestionId = Some ''Q1'', ruleOperator = Some ''resembles'',
            ruleValue = ''yes''\<rparr>]\<rparr>"
       and rs = "[\<lparr>ruleQuestionId = Some ''Q1'', ruleOperator = Some ''resembles'', ruleValue = ''yes''\<rparr>]"
       and r = "\<lparr>ruleQuestionId = Some ''Q1'', ruleOperator = Some ''resembles'', ruleValue = ''yes''\<rparr>"
       and w = "emptyWorld\<lparr>tree := Flat [questionNode 0 ''Q3'']\<rparr>"]
  by (simp add: strictEnv_def malformedQuestion_def questionNode_def conditionOracle_def
      malformedRule_def example_defs refresh_defs stepQuestions_def occurrences_def present_def
      mustRender_def renderOutcome_def)

section \<open>Render failures\<close>






section \<open>Positions in the step\<close>

lemma map_filter_append:
  "List.map_filter f (xs @ ys) = List.map_filter f xs @ List.map_filter f ys"
  by (simp add: List.map_filter_def)

lemma set_map_filter:
  "set (List.map_filter f xs) = {y. \<exists>x \<in> set xs. f x = Some y}"
  by (induction xs) (auto split: option.splits)

lemma map_filter_insertAt:
  "List.map_filter f (insertAt k x xs) =
     List.map_filter f (take k xs) @ (case f x of None \<Rightarrow> [] | Some y \<Rightarrow> [y])
       @ List.map_filter f (drop k xs)"
  by (simp add: insertAt_def map_filter_append split: option.splits)

lemma map_filter_split:
  "List.map_filter f xs = List.map_filter f (take k xs) @ List.map_filter f (drop k xs)"
  by (metis append_take_drop_id map_filter_append)

lemma findIndex_distinct:
  assumes "distinct (map f xs)" and "i < length xs"
  shows "findIndex (\<lambda>x. f x = f (xs ! i)) xs = Some i"
  using assms
proof (induction xs arbitrary: i)
  case Nil
  then show ?case by simp
next
  case (Cons x xs)
  show ?case
  proof (cases i)
    case 0
    then show ?thesis by simp
  next
    case (Suc j)
    with Cons.prems have j: "j < length xs" and d: "distinct (map f xs)" by simp_all
    have "f x \<noteq> f (xs ! j)" using Cons.prems(1) j by (metis distinct.simps(2) list.simps(9) nth_map nth_mem length_map)
    with Cons.IH [OF d j] Suc show ?thesis by simp
  qed
qed

lemma stepIndex_of_question:
  assumes "distinct (map qid qs)" and "i < length qs"
    and "elementId e = questionElementId (qid (qs ! i))"
  shows "stepIndex qs e = Some i"
proof -
  have "(\<lambda>q. questionElementId (qid q) = elementId e) = (\<lambda>q. qid q = qid (qs ! i))"
    using assms(3) by (auto simp: questionElementId_def)
  then have "stepIndex qs e = findIndex (\<lambda>q. qid q = qid (qs ! i)) qs"
    unfolding stepIndex_def by (rule arg_cong2 [where f = findIndex]) simp
  with findIndex_distinct [OF assms(1,2)] show ?thesis by simp
qed

lemma stepIndex_Some:
  assumes "stepIndex qs e = Some j"
  shows "j < length qs \<and> elementId e = questionElementId (qid (qs ! j))"
  using findIndex_Some [of "\<lambda>q. questionElementId (qid q) = elementId e" qs j] assms
  by (simp add: stepIndex_def)

lemma laterQuestions_distinct:
  assumes "distinct (map qid qs)" and "i < length qs"
  shows "laterQuestions qs (qs ! i) = drop (Suc i) qs"
  using findIndex_distinct [OF assms] by (simp add: laterQuestions_def)

section \<open>Insertions and removals keep the order of the step\<close>

lemma findAnchor_Some:
  "findAnchor t later = Some k \<Longrightarrow>
   \<exists>p < length later. getElementById t (questionElementId (qid (later ! p))) = Some k
      \<and> parentIsActual t k
      \<and> (\<forall>p' < p. \<forall>k'. getElementById t (questionElementId (qid (later ! p'))) = Some k'
             \<longrightarrow> \<not> parentIsActual t k')"
proof (induction later)
  case Nil
  then show ?case by simp
next
  case (Cons nq later)
  show ?case
  proof (cases "\<exists>k'. getElementById t (questionElementId (qid nq)) = Some k' \<and> parentIsActual t k'")
    case True
    with Cons.prems have "getElementById t (questionElementId (qid nq)) = Some k \<and> parentIsActual t k"
      by (auto split: option.splits if_splits)
    then show ?thesis by (intro exI [of _ 0]) simp
  next
    case False
    with Cons.prems have "findAnchor t later = Some k"
      by (auto split: option.splits if_splits)
    from Cons.IH [OF this] obtain p where p: "p < length later"
      "getElementById t (questionElementId (qid (later ! p))) = Some k" "parentIsActual t k"
      "\<forall>p' < p. \<forall>k'. getElementById t (questionElementId (qid (later ! p'))) = Some k'
             \<longrightarrow> \<not> parentIsActual t k'"
      by blast
    have "\<forall>p' < Suc p. \<forall>k'. getElementById t (questionElementId (qid ((nq # later) ! p'))) = Some k'
             \<longrightarrow> \<not> parentIsActual t k'"
      using p(4) False by (auto simp: nth_Cons split: nat.splits)
    with p(1,2,3) show ?thesis by (intro exI [of _ "Suc p"]) simp
  qed
qed

lemma findAnchor_None:
  "findAnchor t later = None \<Longrightarrow> nq \<in> set later \<Longrightarrow>
   getElementById t (questionElementId (qid nq)) = Some k \<Longrightarrow> \<not> parentIsActual t k"
  by (induction later) (auto split: option.splits if_splits)

lemma found_is_in_actual:
  assumes "list_all (\<lambda>e. stepIndex qs e = None) (outsideActual t)"
    and "nq \<in> set qs"
    and "getElementById t (questionElementId (qid nq)) = Some k"
  shows "parentIsActual t k"
proof (cases t)
  case (Flat kids)
  then show ?thesis by simp
next
  case (Wrapped pre inner post)
  from getElementById_Some [OF assms(3)]
  have k: "k < length (docOrder t)" "elementId (docOrder t ! k) = questionElementId (qid nq)"
    by simp_all
  have some: "stepIndex qs (docOrder t ! k) \<noteq> None"
    using assms(2) k(2) by (auto simp: stepIndex_def findIndex_None)
  have mem: "docOrder t ! k \<in> set (pre @ post)" if "\<not> parentIsActual t k"
  proof (cases "k < length pre")
    case True
    with Wrapped show ?thesis by (simp add: nth_append)
  next
    case False
    with that Wrapped k(1) have "length pre + length inner \<le> k" "k - length pre - length inner < length post"
      by auto
    with Wrapped False have "docOrder t ! k = post ! (k - length pre - length inner)"
      by (simp add: nth_append)
    with \<open>k - length pre - length inner < length post\<close> show ?thesis by simp
  qed
  show ?thesis
  proof (rule ccontr)
    assume "\<not> parentIsActual t k"
    from mem [OF this] Wrapped have "docOrder t ! k \<in> set (outsideActual t)" by simp
    with assms(1) have "stepIndex qs (docOrder t ! k) = None" by (simp add: list_all_iff)
    with some show False by simp
  qed
qed

lemma outsideActual_insert [simp]:
  "outsideActual (insertBeforeInActual t new k) = outsideActual t"
  "outsideActual (appendToActual t new) = outsideActual t"
  by (cases t; simp)+

lemma outsideActual_remove:
  "set (outsideActual (removeNode t k)) \<subseteq> set (outsideActual t)"
proof (cases t)
  case (Flat kids)
  then show ?thesis by simp
next
  case (Wrapped pre inner post)
  have "set (removeAt j xs) \<subseteq> set xs" for j and xs :: "element list"
    using set_take_subset [of j xs] set_drop_subset [of "Suc j" xs]
    by (auto simp: removeAt_def)
  with Wrapped show ?thesis by auto
qed

lemma remove_keeps_order:
  assumes "allInOrder qs t"
  shows "allInOrder qs (removeNode t k)"
proof -
  let ?d = "docOrder t"
  let ?f = "stepIndex qs"
  have "sorted_wrt (<) (List.map_filter ?f (take k ?d) @ List.map_filter ?f (drop k ?d))"
    using assms map_filter_split [of ?f ?d k] by (simp add: allInOrder_def renderedIndices_def)
  moreover have "List.map_filter ?f (drop k ?d)
      = List.map_filter ?f (take 1 (drop k ?d)) @ List.map_filter ?f (drop (Suc k) ?d)"
    using map_filter_split [of ?f "drop k ?d" 1] by simp
  ultimately have "sorted_wrt (<) (List.map_filter ?f (take k ?d) @ List.map_filter ?f (drop (Suc k) ?d))"
    by (auto simp: sorted_wrt_append)
  then have "sorted_wrt (<) (renderedIndices qs (removeNode t k))"
    by (simp add: renderedIndices_def docOrder_removeNode removeAt_def map_filter_append)
  moreover have "list_all (\<lambda>e. stepIndex qs e = None) (outsideActual (removeNode t k))"
    using assms outsideActual_remove [of t k] by (auto simp: allInOrder_def list_all_iff)
  ultimately show ?thesis by (simp add: allInOrder_def)
qed

lemma map_filter_all_None:
  "\<forall>x \<in> set xs. f x = None \<Longrightarrow> List.map_filter f xs = []"
  by (induction xs) auto

lemma drop_appendPosition:
  assumes "list_all (\<lambda>e. f e = None) (outsideActual t)"
  shows "List.map_filter f (drop (appendPosition t) (docOrder t)) = []"
proof (cases t)
  case (Flat kids)
  then show ?thesis by (simp add: appendPosition_def)
next
  case (Wrapped pre inner post)
  with assms have "\<forall>x \<in> set post. f x = None" by (simp add: list_all_iff)
  from map_filter_all_None [OF this] Wrapped show ?thesis by (simp add: appendPosition_def)
qed

lemma place_keeps_order:
  assumes d: "distinct (map qid qs)" and i: "i < length qs"
    and inv: "allInOrder qs (tree w)"
    and absent: "getElementById (tree w) (questionElementId (qid (qs ! i))) = None"
    and id: "elementId new = questionElementId (qid (qs ! i))"
  shows "allInOrder qs (tree (placeQuestion qs (qs ! i) new w))"
proof -
  let ?t = "tree w"
  let ?d = "docOrder ?t"
  let ?f = "stepIndex qs"
  let ?L = "List.map_filter ?f ?d"
  let ?later = "drop (Suc i) qs"
  have sorted: "sorted_wrt (<) ?L" and out: "list_all (\<lambda>e. ?f e = None) (outsideActual ?t)"
    using inv by (simp_all add: allInOrder_def renderedIndices_def)
  have fnew: "?f new = Some i" using stepIndex_of_question [OF d i id] .
  have later: "laterQuestions qs (qs ! i) = ?later" using laterQuestions_distinct [OF d i] .
  have node: "a < length qs \<and> (\<exists>k'. getElementById ?t (questionElementId (qid (qs ! a))) = Some k'
                \<and> parentIsActual ?t k')" if "a \<in> set ?L" for a
  proof -
    from that obtain e where e: "e \<in> set ?d" "?f e = Some a" by (auto simp: set_map_filter)
    from stepIndex_Some [OF e(2)] have a: "a < length qs"
      "elementId e = questionElementId (qid (qs ! a))" by simp_all
    with e(1) have "getElementById ?t (questionElementId (qid (qs ! a))) \<noteq> None"
      by (auto simp: getElementById_def findIndex_None)
    then obtain k' where k': "getElementById ?t (questionElementId (qid (qs ! a))) = Some k'" by auto
    from found_is_in_actual [OF out _ k'] a(1) have "parentIsActual ?t k'" by simp
    with a(1) k' show ?thesis by blast
  qed
  have noI: "a \<noteq> i" if "a \<in> set ?L" for a
    using node [OF that] absent by auto
  show ?thesis
  proof (cases "findAnchor ?t ?later")
    case None
    have small: "a < i" if "a \<in> set ?L" for a
    proof (rule ccontr)
      assume "\<not> a < i"
      with noI [OF that] have ia: "i < a" by simp
      from node [OF that] obtain k' where k': "a < length qs"
        "getElementById ?t (questionElementId (qid (qs ! a))) = Some k'" "parentIsActual ?t k'"
        by blast
      have "qs ! a \<in> set ?later"
        using ia k'(1) by (auto simp: in_set_conv_nth intro!: exI [of _ "a - Suc i"])
      from findAnchor_None [OF None this k'(2)] k'(3) show False by simp
    qed
    have t': "tree (placeQuestion qs (qs ! i) new w) = appendToActual ?t new"
      using None later by (simp add: placeQuestion_def)
    have "?L = List.map_filter ?f (take (appendPosition ?t) ?d)"
      using map_filter_split [of ?f ?d "appendPosition ?t"] drop_appendPosition [OF out] by simp
    then have "renderedIndices qs (appendToActual ?t new) = ?L @ [i]"
      using fnew drop_appendPosition [OF out]
      by (simp add: renderedIndices_def docOrder_appendToActual map_filter_insertAt)
    with sorted small out t' show ?thesis
      by (auto simp: allInOrder_def sorted_wrt_append)
  next
    case (Some k)
    from findAnchor_Some [OF Some] obtain p where p: "p < length ?later"
      "getElementById ?t (questionElementId (qid (?later ! p))) = Some k" "parentIsActual ?t k"
      "\<forall>p' < p. \<forall>k'. getElementById ?t (questionElementId (qid (?later ! p'))) = Some k'
             \<longrightarrow> \<not> parentIsActual ?t k'"
      by blast
    let ?j = "Suc i + p"
    have j: "?j < length qs" "?later ! p = qs ! ?j" using p(1) by simp_all
    from getElementById_Some [OF p(2)] j(2)
    have k: "k < length ?d" "elementId (?d ! k) = questionElementId (qid (qs ! ?j))" by simp_all
    have fk: "?f (?d ! k) = Some ?j" using stepIndex_of_question [OF d j(1) k(2)] .
    let ?A = "List.map_filter ?f (take k ?d)"
    let ?C = "List.map_filter ?f (drop (Suc k) ?d)"
    have dk: "drop k ?d = ?d ! k # drop (Suc k) ?d" using k(1) by (simp add: Cons_nth_drop_Suc)
    have L: "?L = ?A @ ?j # ?C"
      using map_filter_split [of ?f ?d k] dk fk by simp
    have small: "a < i" if "a \<in> set ?A" for a
    proof (rule ccontr)
      assume "\<not> a < i"
      have aL: "a \<in> set ?L" using that L by simp
      with noI \<open>\<not> a < i\<close> have ia: "i < a" by fastforce
      have aj: "a < ?j" using sorted that L by (auto simp: sorted_wrt_append)
      from node [OF aL] obtain k' where k': "a < length qs"
        "getElementById ?t (questionElementId (qid (qs ! a))) = Some k'" "parentIsActual ?t k'"
        by blast
      have "a - Suc i < p" "?later ! (a - Suc i) = qs ! a" using ia aj k'(1) by simp_all
      with p(4) k'(2,3) show False by auto
    qed
    have big: "\<forall>c \<in> set ?C. ?j < c" and sA: "sorted_wrt (<) ?A" and sC: "sorted_wrt (<) ?C"
      using sorted L by (auto simp: sorted_wrt_append)
    have t': "tree (placeQuestion qs (qs ! i) new w) = insertBeforeInActual ?t new k"
      using Some later by (simp add: placeQuestion_def)
    have "renderedIndices qs (insertBeforeInActual ?t new k) = ?A @ [i] @ ?j # ?C"
      using fnew dk fk
      by (simp add: renderedIndices_def docOrder_insertBeforeInActual [OF p(3)] map_filter_insertAt)
    moreover have "sorted_wrt (<) (?A @ [i] @ ?j # ?C)"
    proof -
      have "\<forall>a \<in> set ?A. a < i" using small by blast
      moreover have "\<forall>a \<in> set ?A. a < ?j" using small by fastforce
      moreover have "\<forall>c \<in> set ?C. i < c" using big by fastforce
      moreover have "\<forall>a \<in> set ?A. \<forall>c \<in> set ?C. a < c" using small big by fastforce
      ultimately show ?thesis using big sA sC by (simp add: sorted_wrt_append)
    qed
    ultimately show ?thesis using out t' by (simp add: allInOrder_def)
  qed
qed

section \<open>The order after a refresh\<close>

lemma findAnchor_nearest:
  "findAnchor t later =
     (case findIndex (liveInActual t) later of
        None \<Rightarrow> None
      | Some p \<Rightarrow> getElementById t (questionElementId (qid (later ! p))))"
  by (induction later) (auto simp: liveInActual_def split: option.splits)

lemma refreshQuestion_keeps_order:
  assumes d: "distinct (map qid qs)" and q: "q \<in> set qs"
    and inv: "allInOrder qs (tree w)"
    and step: "refreshQuestion ev qs q w = (w1, r)"
  shows "allInOrder qs (tree w1)"
proof -
  from q obtain i where i: "i < length qs" "qs ! i = q" by (auto simp: in_set_conv_nth)
  show ?thesis
  proof (cases "conditions q = None")
    case True
    with step inv show ?thesis by (simp add: refreshQuestion_def)
  next
    case cond: False
    show ?thesis
    proof (cases "shouldShowQuestion ev (responses w) q")
      case sh: True
      show ?thesis
      proof (cases "getElementById (tree w) (questionElementId (qid q))")
        case None
        obtain rr wr where rq: "renderQuestion ev (Some q) None w = (rr, wr)"
          by (cases "renderQuestion ev (Some q) None w")
        from renderQuestion_frame [OF rq] have tr: "tree wr = tree w" by simp
        show ?thesis
        proof (cases rr)
          case (Inl f)
          with cond sh None rq step tr inv show ?thesis by (auto simp: refreshQuestion_def)
        next
          case (Inr eo)
          show ?thesis
          proof (cases eo)
            case eoNone: None
            with Inr cond sh None rq step tr inv show ?thesis by (auto simp: refreshQuestion_def)
          next
            case (Some new)
            have w1: "w1 = placeQuestion qs q new wr"
              using Inr Some cond sh None rq step by (auto simp: refreshQuestion_def)
            have id: "elementId new = questionElementId (qid (qs ! i))"
              using renderQuestion_Some_new [of ev q None w new wr] rq Inr Some i by simp
            from place_keeps_order [OF d i(1) _ _ id, of wr] inv None tr i(2) w1
            show ?thesis by simp
          qed
        qed
      next
        case (Some k)
        with cond sh step inv show ?thesis by (auto simp: refreshQuestion_def)
      qed
    next
      case nsh: False
      show ?thesis
      proof (cases "getElementById (tree w) (questionElementId (qid q))")
        case None
        with cond nsh step inv show ?thesis by (auto simp: refreshQuestion_def)
      next
        case (Some k)
        with cond nsh step have "tree w1 = removeNode (tree w) k"
          by (auto simp: refreshQuestion_def)
        with remove_keeps_order [OF inv, of k] show ?thesis by simp
      qed
    qed
  qed
qed

lemma refreshLoop_keeps_order:
  assumes "distinct (map qid qs)" and "set rest \<subseteq> set qs"
    and "allInOrder qs (tree w)"
    and "refreshLoop ev qs rest w = (w1, r)"
  shows "allInOrder qs (tree w1)"
  using assms(2,3,4)
proof (induction rest arbitrary: w)
  case Nil
  then show ?case by simp
next
  case (Cons q rest)
  obtain wa ra where step: "refreshQuestion ev qs q w = (wa, ra)"
    by (cases "refreshQuestion ev qs q w")
  from refreshQuestion_keeps_order [OF assms(1) _ Cons.prems(2) step] Cons.prems(1)
  have inv: "allInOrder qs (tree wa)" by simp
  show ?case
  proof (cases ra)
    case None
    with Cons.prems(3) step have "refreshLoop ev qs rest wa = (w1, r)" by simp
    from Cons.IH [OF _ inv this] Cons.prems(1) show ?thesis by simp
  next
    case (Some f)
    with Cons.prems(3) step inv show ?thesis by simp
  qed
qed

lemma map_filter_standardIndex:
  "List.map_filter (standardIndex qs) es
     = filter (\<lambda>i. \<not> truthy (forOptionId (qs ! i))) (List.map_filter (stepIndex qs) es)"
  by (induction es) (auto simp: standardIndex_def split: option.splits)

lemma standardIndices_filter:
  "standardIndices qs t = filter (\<lambda>i. \<not> truthy (forOptionId (qs ! i))) (renderedIndices qs t)"
  by (simp add: standardIndices_def renderedIndices_def map_filter_standardIndex)

lemma allInOrder_standard: "allInOrder qs t \<Longrightarrow> standardInOrder qs t"
  by (simp add: allInOrder_def standardInOrder_def standardIndices_filter sorted_wrt_filter)

lemma refreshQuestion_inserts:
  assumes d: "distinct (map qid qs)" and i: "i < length qs"
    and cond: "conditions (qs ! i) \<noteq> None"
    and sh: "shouldShowQuestion ev (responses w) (qs ! i)"
    and absent: "\<not> present (tree w) (questionElementId (qid (qs ! i)))"
    and ok: "renderOutcome ev w (qs ! i) = Inr True"
  shows "\<exists>new. elementId new = questionElementId (qid (qs ! i))
          \<and> (case nearestLater qs (tree w) i of
                Some j \<Rightarrow>
                  (\<exists>k. getElementById (tree w) (questionElementId (qid (qs ! j))) = Some k
                      \<and> parentIsActual (tree w) k
                      \<and> docOrder (tree (fst (refreshQuestion ev qs (qs ! i) w)))
                          = take k (docOrder (tree w)) @ new # drop k (docOrder (tree w)))
              | None \<Rightarrow>
                  actualChildren (tree (fst (refreshQuestion ev qs (qs ! i) w)))
                    = actualChildren (tree w) @ [new])"
proof -
  let ?q = "qs ! i"
  obtain rr wr where rq: "renderQuestion ev (Some ?q) None w = (rr, wr)"
    by (cases "renderQuestion ev (Some ?q) None w")
  from renderOutcome_cases [OF rq] ok obtain new where rr: "rr = Inr (Some new)"
    by (auto split: sum.splits option.splits)
  from renderQuestion_frame [OF rq] have tr: "tree wr = tree w" by simp
  have id: "elementId new = questionElementId (qid ?q)"
    using renderQuestion_Some_new [of ev ?q None w new wr] rq rr by simp
  have none: "getElementById (tree w) (questionElementId (qid ?q)) = None"
    using absent by (simp add: present_def)
  have res: "fst (refreshQuestion ev qs ?q w) = placeQuestion qs ?q new wr"
    using cond sh none rq rr by (auto simp: refreshQuestion_def)
  have later: "laterQuestions qs ?q = drop (Suc i) qs" using laterQuestions_distinct [OF d i] .
  show ?thesis
  proof (cases "findIndex (liveInActual (tree w)) (drop (Suc i) qs)")
    case None
    then have "findAnchor (tree wr) (laterQuestions qs ?q) = None"
      using later tr by (simp add: findAnchor_nearest)
    then have "tree (placeQuestion qs ?q new wr) = appendToActual (tree w) new"
      using tr by (simp add: placeQuestion_def)
    moreover have "actualChildren (appendToActual (tree w) new) = actualChildren (tree w) @ [new]"
      by (cases "tree w") simp_all
    ultimately show ?thesis using None id res by (auto simp: nearestLater_def)
  next
    case (Some p)
    from findIndex_Some [OF Some] have p: "p < length (drop (Suc i) qs)"
      "liveInActual (tree w) (drop (Suc i) qs ! p)" by simp_all
    then obtain k where k: "getElementById (tree w) (questionElementId (qid (qs ! (Suc i + p)))) = Some k"
      "parentIsActual (tree w) k"
      by (auto simp: liveInActual_def split: option.splits)
    have "findAnchor (tree wr) (laterQuestions qs ?q) = Some k"
      using later tr Some k(1) p(1) by (simp add: findAnchor_nearest)
    then have "tree (placeQuestion qs ?q new wr) = insertBeforeInActual (tree w) new k"
      using tr by (simp add: placeQuestion_def)
    with docOrder_insertBeforeInActual [OF k(2), of new] res
    have "docOrder (tree (fst (refreshQuestion ev qs ?q w)))
            = take k (docOrder (tree w)) @ new # drop k (docOrder (tree w))"
      by (simp add: insertAt_def)
    with k id Some show ?thesis by (auto simp: nearestLater_def)
  qed
qed

section \<open>The order invariant\<close>

text \<open>
  After the first rendering of the example step the option-specific question \<open>Q3\<close>
  stands behind \<open>Q4\<close>. When \<open>Q4\<close> is answered \<open>yes\<close>, the refresh inserts \<open>Q2\<close> before the
  element of \<open>Q3\<close>, the nearest later question with an element, and so behind \<open>Q4\<close>.
\<close>

theorem option_node_breaks_order:
  "distinct (map qid surveyStep)
   \<and> map elementId (docOrder (tree afterAnswer))
       = [''question-Q1'', ''question-Q4'', ''question-Q3'']
   \<and> standardInOrder surveyStep (tree afterAnswer)
   \<and> snd (refreshConditionalQuestions answeredYes (stepOf surveyStep) afterAnswer) = None
   \<and> map elementId (docOrder (tree (fst
        (refreshConditionalQuestions answeredYes (stepOf surveyStep) afterAnswer))))
       = [''question-Q1'', ''question-Q4'', ''question-Q2'', ''question-Q3'']
   \<and> \<not> standardInOrder surveyStep (tree (fst
        (refreshConditionalQuestions answeredYes (stepOf surveyStep) afterAnswer)))"
  by (simp add: afterAnswer_def firstRendering_def surveyStep_def answeredYes_def first_defs
      example_defs refresh_defs order_defs)

text \<open>
  Claim C3, amended. Let the ids of the step's questions be distinct. If the elements of
  all questions of the step, the option-specific ones included, are children of the
  actual container and stand in the order of \<open>orderedQuestions\<close>, they still do after a
  refresh, and so the elements of the standard questions stand in the relative order of
  their indices. A question that becomes visible is inserted immediately before the
  element of the nearest later question that has a live node in the same parent, and
  appended at the end when there is none.
\<close>

theorem refresh_keeps_step_order:
  assumes "distinct (map qid (stepQuestions st))"
  shows "(allInOrder (stepQuestions st) (tree w) \<longrightarrow>
            allInOrder (stepQuestions st) (tree (fst (refreshConditionalQuestions ev st w)))
            \<and> standardInOrder (stepQuestions st) (tree (fst (refreshConditionalQuestions ev st w))))
         \<and> (i < length (stepQuestions st)
             \<and> conditions (stepQuestions st ! i) \<noteq> None
             \<and> shouldShowQuestion ev (responses w) (stepQuestions st ! i)
             \<and> \<not> present (tree w) (questionElementId (qid (stepQuestions st ! i)))
             \<and> renderOutcome ev w (stepQuestions st ! i) = Inr True
            \<longrightarrow> (\<exists>new. elementId new = questionElementId (qid (stepQuestions st ! i))
                  \<and> (case nearestLater (stepQuestions st) (tree w) i of
                        Some j \<Rightarrow>
                          (\<exists>k. getElementById (tree w) (questionElementId (qid (stepQuestions st ! j))) = Some k
                              \<and> parentIsActual (tree w) k
                              \<and> docOrder (tree (fst (refreshQuestion ev (stepQuestions st) (stepQuestions st ! i) w)))
                                  = take k (docOrder (tree w)) @ new # drop k (docOrder (tree w)))
                      | None \<Rightarrow>
                          actualChildren (tree (fst (refreshQuestion ev (stepQuestions st) (stepQuestions st ! i) w)))
                            = actualChildren (tree w) @ [new])))"
proof (intro conjI impI)
  let ?qs = "stepQuestions st"
  let ?w0 = "w\<lparr>refreshCalls := refreshCalls w @ [clock w]\<rparr>"
  assume inv: "allInOrder ?qs (tree w)"
  obtain w1 r where loop: "refreshLoop ev ?qs ?qs ?w0 = (w1, r)"
    by (cases "refreshLoop ev ?qs ?qs ?w0")
  from refreshLoop_keeps_order [OF assms _ _ loop] inv
  have "allInOrder ?qs (tree w1)" by simp
  with loop show "allInOrder ?qs (tree (fst (refreshConditionalQuestions ev st w)))"
    by (simp add: refreshConditionalQuestions_loop)
  then show "standardInOrder ?qs (tree (fst (refreshConditionalQuestions ev st w)))"
    by (rule allInOrder_standard)
next
  assume "i < length (stepQuestions st)
             \<and> conditions (stepQuestions st ! i) \<noteq> None
             \<and> shouldShowQuestion ev (responses w) (stepQuestions st ! i)
             \<and> \<not> present (tree w) (questionElementId (qid (stepQuestions st ! i)))
             \<and> renderOutcome ev w (stepQuestions st ! i) = Inr True"
  then show "\<exists>new. elementId new = questionElementId (qid (stepQuestions st ! i))
                  \<and> (case nearestLater (stepQuestions st) (tree w) i of
                        Some j \<Rightarrow>
                          (\<exists>k. getElementById (tree w) (questionElementId (qid (stepQuestions st ! j))) = Some k
                              \<and> parentIsActual (tree w) k
                              \<and> docOrder (tree (fst (refreshQuestion ev (stepQuestions st) (stepQuestions st ! i) w)))
                                  = take k (docOrder (tree w)) @ new # drop k (docOrder (tree w)))
                      | None \<Rightarrow>
                          actualChildren (tree (fst (refreshQuestion ev (stepQuestions st) (stepQuestions st ! i) w)))
                            = actualChildren (tree w) @ [new])"
    using refreshQuestion_inserts [OF assms, of i ev w] by blast
qed

theorem refresh_keeps_step_order_witness:
  "distinct (map qid (stepQuestions (stepOf threeQuestions)))
   \<and> allInOrder (stepQuestions (stepOf threeQuestions)) (tree twoRendered)
   \<and> standardInOrder (stepQuestions (stepOf threeQuestions))
        (tree (fst (refreshConditionalQuestions showAll (stepOf threeQuestions) twoRendered)))
   \<and> map elementId (docOrder (tree (fst
        (refreshConditionalQuestions showAll (stepOf threeQuestions) twoRendered))))
       = [''question-Q0'', ''question-Q2'', ''question-Q5'']
   \<and> renderOutcome showAll twoRendered (stepQuestions (stepOf threeQuestions) ! 1) = Inr True
   \<and> nearestLater (stepQuestions (stepOf threeQuestions)) (tree twoRendered) 1 = Some 2"
  using refresh_keeps_step_order
    [where st = "stepOf threeQuestions" and w = twoRendered and ev = showAll and i = 1]
  by (simp add: threeQuestions_def twoRendered_def questionNode_def example_defs refresh_defs
      order_defs stepQuestions_def renderOutcome_def nearestLater_def liveInActual_def)

section \<open>Checking an option\<close>

















section \<open>Timers\<close>





lemma elapse_Suc: "elapse ev (Suc n) w = tick ev (elapse ev n w)"
  by (simp add: elapse_def)


section \<open>Unchecking an option\<close>








section \<open>Callbacks other than the refresh\<close>

lemma renderInput_timers:
  assumes "renderInput ev q w = Some (r, w1)"
  shows "\<forall>t \<in> set (timers w1). t \<in> set (timers w) \<or> inert (callback t)"
  using assms
  by (auto simp: renderInput_def renderShortText_def renderLongText_def renderRadio_def
      renderCheckbox_def setTimeout_def inert_def split: if_splits option.splits)

lemma renderQuestion_timers:
  assumes "renderQuestion ev qo td w = (r, w1)"
  shows "\<forall>t \<in> set (timers w1). t \<in> set (timers w) \<or> inert (callback t)"
proof (cases qo)
  case None
  with assms show ?thesis by (simp add: renderQuestion_def)
next
  case (Some q)
  let ?w0 = "w\<lparr>nextRef := Suc (nextRef w)\<rparr>"
  show ?thesis
  proof (cases "renderInput ev q ?w0")
    case None
    with assms Some show ?thesis
      by (auto simp: renderQuestion_def createQuestionContainer_def Let_def)
  next
    case (Some a)
    obtain r2 w2 where a: "a = (r2, w2)" by (cases a)
    from renderInput_timers [of ev q ?w0 r2 w2] Some a
    have "\<forall>t \<in> set (timers w2). t \<in> set (timers w) \<or> inert (callback t)" by simp
    moreover have "w1 = w2"
      using assms \<open>qo = Some q\<close> Some a
      by (auto simp: renderQuestion_def createQuestionContainer_def Let_def split: sum.splits)
    ultimately show ?thesis by simp
  qed
qed

lemma refreshQuestion_timers:
  assumes "refreshQuestion ev qs q w = (w1, r)"
  shows "\<forall>t \<in> set (timers w1). t \<in> set (timers w) \<or> inert (callback t)"
proof -
  obtain rr wr where rq: "renderQuestion ev (Some q) None w = (rr, wr)"
    by (cases "renderQuestion ev (Some q) None w")
  note tr = renderQuestion_timers [OF rq]
  have "timers w1 = timers w \<or> timers w1 = timers wr"
    using assms rq
    by (auto simp: refreshQuestion_def Let_def placeQuestion_def
        split: if_splits sum.splits option.splits)
  with tr show ?thesis by auto
qed

lemma refreshLoop_timers:
  "refreshLoop ev qs rest w = (w1, r) \<Longrightarrow>
   \<forall>t \<in> set (timers w1). t \<in> set (timers w) \<or> inert (callback t)"
proof (induction rest arbitrary: w)
  case Nil
  then show ?case by simp
next
  case (Cons q rest)
  obtain wa ra where step: "refreshQuestion ev qs q w = (wa, ra)"
    by (cases "refreshQuestion ev qs q w")
  note a = refreshQuestion_timers [OF step]
  show ?case
  proof (cases ra)
    case None
    with Cons.prems step have "refreshLoop ev qs rest wa = (w1, r)" by simp
    from Cons.IH [OF this] a show ?thesis by blast
  next
    case (Some f)
    with Cons.prems step a show ?thesis by simp
  qed
qed

lemma refreshConditionalQuestions_log:
  "refreshCalls (fst (refreshConditionalQuestions ev st w)) = refreshCalls w @ [clock w]"
proof -
  obtain w1 r where l: "refreshLoop ev (stepQuestions st) (stepQuestions st)
      (w\<lparr>refreshCalls := refreshCalls w @ [clock w]\<rparr>) = (w1, r)"
    by (cases "refreshLoop ev (stepQuestions st) (stepQuestions st)
      (w\<lparr>refreshCalls := refreshCalls w @ [clock w]\<rparr>)")
  from refreshLoop_responses [OF l] l show ?thesis
    by (simp add: refreshConditionalQuestions_loop)
qed

lemma refreshConditionalQuestions_timers:
  "\<forall>t \<in> set (timers (fst (refreshConditionalQuestions ev st w))).
     t \<in> set (timers w) \<or> inert (callback t)"
proof -
  obtain w1 r where l: "refreshLoop ev (stepQuestions st) (stepQuestions st)
      (w\<lparr>refreshCalls := refreshCalls w @ [clock w]\<rparr>) = (w1, r)"
    by (cases "refreshLoop ev (stepQuestions st) (stepQuestions st)
      (w\<lparr>refreshCalls := refreshCalls w @ [clock w]\<rparr>)")
  from refreshLoop_timers [OF l] l show ?thesis
    by (simp add: refreshConditionalQuestions_loop)
qed

lemma runCallback_inert:
  assumes "inert cb"
  shows "timers (runCallback ev cb w) = timers w \<and> refreshCalls (runCallback ev cb w) = refreshCalls w"
  using assms by (cases cb) (simp_all add: runCallback_def inert_def split: option.splits)

lemma fire_inert:
  assumes "inert (callback t)" and "\<forall>u \<in> set (timers w). inert (callback u)"
  shows "refreshCalls (fire ev t w) = refreshCalls w
         \<and> (\<forall>u \<in> set (timers (fire ev t w)). inert (callback u))"
  using assms runCallback_inert [OF assms(1), of ev "w\<lparr>timers := filter (\<lambda>u. timerId u \<noteq> timerId t) (timers w)\<rparr>"]
  by (simp add: fire_def)

lemma fold_fire_inert:
  "\<forall>t \<in> set ts. inert (callback t) \<Longrightarrow> \<forall>u \<in> set (timers w). inert (callback u) \<Longrightarrow>
   refreshCalls (fold (fire ev) ts w) = refreshCalls w
   \<and> (\<forall>u \<in> set (timers (fold (fire ev) ts w)). inert (callback u))"
proof (induction ts arbitrary: w)
  case Nil
  then show ?case by simp
next
  case (Cons t ts)
  from fire_inert [of t w ev] Cons.prems
  have a: "refreshCalls (fire ev t w) = refreshCalls w"
    "\<forall>u \<in> set (timers (fire ev t w)). inert (callback u)" by simp_all
  from Cons.IH [OF _ a(2)] Cons.prems(1) a(1) show ?case by simp
qed

lemma tick_inert:
  assumes "\<forall>u \<in> set (timers w). inert (callback u)"
  shows "refreshCalls (tick ev w) = refreshCalls w
         \<and> (\<forall>u \<in> set (timers (tick ev w)). inert (callback u))"
proof -
  let ?w1 = "w\<lparr>clock := Suc (clock w)\<rparr>"
  let ?ts = "sort_key due (filter (\<lambda>t. due t \<le> clock ?w1) (timers ?w1))"
  have "\<forall>t \<in> set ?ts. inert (callback t)" using assms by simp
  from fold_fire_inert [OF this, of ?w1 ev] assms show ?thesis
    by (simp add: tick_def Let_def)
qed

lemma elapse_inert:
  "\<forall>u \<in> set (timers w). inert (callback u) \<Longrightarrow>
   refreshCalls (elapse ev n w) = refreshCalls w
   \<and> (\<forall>u \<in> set (timers (elapse ev n w)). inert (callback u))"
proof (induction n)
  case 0
  then show ?case by (simp add: elapse_def)
next
  case (Suc n)
  from Suc.IH [OF Suc.prems] tick_inert [of "elapse ev n w" ev]
  show ?case by (simp add: elapse_Suc)
qed

lemma elapse_add: "elapse ev (m + n) w = elapse ev n (elapse ev m w)"
proof (induction n)
  case 0
  show ?case by (simp add: elapse_def)
next
  case (Suc n)
  then show ?case by (simp add: elapse_Suc)
qed

section \<open>Debounced listeners\<close>

lemma runCallback_inert_frame:
  assumes "inert cb"
  shows "timers (runCallback ev cb w) = timers w"
    "refreshCalls (runCallback ev cb w) = refreshCalls w"
    "clock (runCallback ev cb w) = clock w"
    "nextTimerId (runCallback ev cb w) = nextTimerId w"
    "debounceTimeout (runCallback ev cb w) = debounceTimeout w"
  using assms by (cases cb; simp add: runCallback_def inert_def split: option.splits)+

lemma timersWellFormed_filter:
  "timersWellFormed w \<Longrightarrow> timersWellFormed (w\<lparr>timers := filter P (timers w)\<rparr>)"
  by (auto simp: timersWellFormed_def list_all_iff distinct_map_filter)

lemma fire_other:
  assumes "awaiting h tm w" and "inert (callback t)" and "timerId t \<noteq> timerId tm"
  shows "awaiting h tm (fire ev t w) \<and> refreshCalls (fire ev t w) = refreshCalls w
         \<and> clock (fire ev t w) = clock w"
proof (cases "timerId t \<in> set (map timerId (timers w))")
  case False
  with assms(1) show ?thesis by (simp add: fire_def)
next
  case True
  let ?w' = "w\<lparr>timers := filter (\<lambda>u. timerId u \<noteq> timerId t) (timers w)\<rparr>"
  have a: "awaiting h tm ?w'"
    using assms(1,3) timersWellFormed_filter [of w "\<lambda>u. timerId u \<noteq> timerId t"]
    by (auto simp: awaiting_def list_all_iff)
  have f: "fire ev t w = runCallback ev (callback t) ?w'" using True by (simp add: fire_def)
  from runCallback_inert_frame [OF assms(2), of ev ?w'] a f show ?thesis
    by (simp add: awaiting_def timersWellFormed_def)
qed

lemma fold_fire_other:
  "awaiting h tm w \<Longrightarrow> \<forall>t \<in> set ts. inert (callback t) \<and> timerId t \<noteq> timerId tm \<Longrightarrow>
   awaiting h tm (fold (fire ev) ts w) \<and> refreshCalls (fold (fire ev) ts w) = refreshCalls w
   \<and> clock (fold (fire ev) ts w) = clock w"
proof (induction ts arbitrary: w)
  case Nil
  then show ?case by simp
next
  case (Cons t ts)
  from fire_other [OF Cons.prems(1), of t ev] Cons.prems(2)
  have a: "awaiting h tm (fire ev t w)" "refreshCalls (fire ev t w) = refreshCalls w"
    "clock (fire ev t w) = clock w" by simp_all
  from Cons.IH [OF a(1)] Cons.prems(2) a(2,3) show ?case by simp
qed

lemma awaiting_others:
  assumes "awaiting h tm w" and "t \<in> set (timers w)" and "t \<noteq> tm"
  shows "inert (callback t) \<and> timerId t \<noteq> timerId tm"
proof -
  from assms have i: "inert (callback t)" by (auto simp: awaiting_def list_all_iff)
  have "distinct (map timerId (timers w))" "tm \<in> set (timers w)"
    using assms(1) by (simp_all add: awaiting_def timersWellFormed_def)
  with assms(2,3) have "timerId t \<noteq> timerId tm"
    by (meson distinct_map inj_on_def)
  with i show ?thesis by simp
qed

lemma tick_awaiting:
  assumes "awaiting h tm w" and "Suc (clock w) < due tm"
  shows "awaiting h tm (tick ev w) \<and> refreshCalls (tick ev w) = refreshCalls w
         \<and> clock (tick ev w) = Suc (clock w)"
proof -
  let ?w1 = "w\<lparr>clock := Suc (clock w)\<rparr>"
  let ?ts = "sort_key due (filter (\<lambda>t. due t \<le> clock ?w1) (timers ?w1))"
  have a: "awaiting h tm ?w1" using assms(1) by (simp add: awaiting_def timersWellFormed_def)
  have "\<forall>t \<in> set ?ts. inert (callback t) \<and> timerId t \<noteq> timerId tm"
  proof
    fix t assume "t \<in> set ?ts"
    then have "t \<in> set (timers w)" "due t \<le> Suc (clock w)" by simp_all
    with assms(2) have "t \<noteq> tm" by auto
    from awaiting_others [OF assms(1) \<open>t \<in> set (timers w)\<close> this]
    show "inert (callback t) \<and> timerId t \<noteq> timerId tm" .
  qed
  from fold_fire_other [OF a this, of ev] show ?thesis by (simp add: tick_def Let_def)
qed

lemma elapse_awaiting:
  "awaiting h tm w \<Longrightarrow> clock w + n < due tm \<Longrightarrow>
   awaiting h tm (elapse ev n w) \<and> refreshCalls (elapse ev n w) = refreshCalls w
   \<and> clock (elapse ev n w) = clock w + n"
proof (induction n)
  case 0
  then show ?case by (simp add: elapse_def)
next
  case (Suc n)
  then have ih: "awaiting h tm (elapse ev n w)" "refreshCalls (elapse ev n w) = refreshCalls w"
    "clock (elapse ev n w) = clock w + n" by simp_all
  from tick_awaiting [OF ih(1), of ev] ih Suc.prems(2) show ?case by (simp add: elapse_Suc)
qed


lemma debounced_awaiting:
  assumes "(timersWellFormed w \<and> noRefreshPending w) \<or> (\<exists>tm. awaiting h tm w)"
  shows "\<exists>tm. awaiting h tm (debounced h cb wait w) \<and> due tm = clock w + wait
           \<and> callback tm = cb
           \<and> refreshCalls (debounced h cb wait w) = refreshCalls w
           \<and> clock (debounced h cb wait w) = clock w"
proof -
  let ?w0 = "clearTimeout (debounceTimeout w h) w"
  let ?tm = "\<lparr>timerId = nextTimerId w, due = clock w + wait, callback = cb\<rparr>"
  have sub: "set (timers ?w0) \<subseteq> set (timers w)" "nextTimerId ?w0 = nextTimerId w"
    "clock ?w0 = clock w" "refreshCalls ?w0 = refreshCalls w"
    by (auto simp: clearTimeout_def split: option.splits)
  have wf: "timersWellFormed w" using assms by (auto simp: awaiting_def)
  have wf0: "timersWellFormed ?w0"
    using wf timersWellFormed_filter [of w] by (simp add: clearTimeout_def split: option.splits)
  have quiet: "\<forall>u \<in> set (timers ?w0). inert (callback u)"
    using assms
  proof
    assume "timersWellFormed w \<and> noRefreshPending w"
    with sub(1) show ?thesis by (auto simp: noRefreshPending_def list_all_iff)
  next
    assume "\<exists>tm. awaiting h tm w"
    then obtain tm where a: "awaiting h tm w" ..
    then have "debounceTimeout w h = Some (timerId tm)" by (simp add: awaiting_def)
    then have "\<forall>u \<in> set (timers ?w0). u \<in> set (timers w) \<and> u \<noteq> tm"
      by (auto simp: clearTimeout_def)
    with awaiting_others [OF a] show ?thesis by blast
  qed
  have d: "debounced h cb wait w
      = ?w0\<lparr>timers := timers ?w0 @ [?tm], nextTimerId := Suc (nextTimerId w),
            debounceTimeout := (debounceTimeout ?w0)(h := Some (nextTimerId w))\<rparr>"
    by (simp add: debounced_def setTimeout_def sub)
  have fresh: "\<forall>u \<in> set (timers ?w0). timerId u < nextTimerId w"
    using wf0 sub(2) by (simp add: timersWellFormed_def list_all_iff)
  have "awaiting h ?tm (debounced h cb wait w)"
    using wf0 quiet fresh unfolding d
    by (auto simp: awaiting_def timersWellFormed_def list_all_iff)
  then show ?thesis using d sub by (rule_tac x = ?tm in exI) simp
qed

lemma burst_awaiting:
  assumes "eventName c = ''input''"
  shows "(timersWellFormed w \<and> noRefreshPending w) \<or> (\<exists>tm. awaiting h tm w) \<Longrightarrow>
         \<forall>g \<in> set gaps. g < 300 \<Longrightarrow>
         \<exists>tm. awaiting h tm (burst ev st h c gaps w)
           \<and> due tm = clock w + sum_list gaps + 300
           \<and> callback tm = CallRefresh st
           \<and> refreshCalls (burst ev st h c gaps w) = refreshCalls w
           \<and> clock (burst ev st h c gaps w) = clock w + sum_list gaps"
proof (induction gaps arbitrary: w)
  case Nil
  from debounced_awaiting [OF Nil.prems(1), of "CallRefresh st" 300] assms show ?case
    by (auto simp: dispatchEvent_def handler_def)
next
  case (Cons g gaps)
  let ?wa = "dispatchEvent ev st h c ''input'' w"
  from debounced_awaiting [OF Cons.prems(1), of "CallRefresh st" 300] assms
  obtain tm where tm: "awaiting h tm ?wa" "due tm = clock w + 300"
    "refreshCalls ?wa = refreshCalls w" "clock ?wa = clock w"
    by (auto simp: dispatchEvent_def handler_def)
  have g: "g < 300" using Cons.prems(2) by simp
  let ?wb = "elapse ev g ?wa"
  from elapse_awaiting [OF tm(1), of g ev] tm g
  have wb: "awaiting h tm ?wb" "refreshCalls ?wb = refreshCalls w" "clock ?wb = clock w + g"
    by simp_all
  then have pre: "(timersWellFormed ?wb \<and> noRefreshPending ?wb) \<or> (\<exists>tm. awaiting h tm ?wb)"
    by blast
  from Cons.IH [OF pre] Cons.prems(2) obtain tm' where
    "awaiting h tm' (burst ev st h c gaps ?wb)"
    "due tm' = clock ?wb + sum_list gaps + 300"
    "callback tm' = CallRefresh st"
    "refreshCalls (burst ev st h c gaps ?wb) = refreshCalls ?wb"
    "clock (burst ev st h c gaps ?wb) = clock ?wb + sum_list gaps"
    by auto
  with wb show ?case by (rule_tac x = tm' in exI) simp
qed

lemma fold_fire_refresh:
  "awaiting h tm w \<Longrightarrow> callback tm = CallRefresh st \<Longrightarrow> tm \<in> set ts \<Longrightarrow> distinct ts \<Longrightarrow>
   \<forall>t \<in> set ts. t \<noteq> tm \<longrightarrow> inert (callback t) \<and> timerId t \<noteq> timerId tm \<Longrightarrow>
   refreshCalls (fold (fire ev) ts w) = refreshCalls w @ [clock w]
   \<and> (\<forall>u \<in> set (timers (fold (fire ev) ts w)). inert (callback u))"
proof (induction ts arbitrary: w)
  case Nil
  then show ?case by simp
next
  case (Cons t ts)
  show ?case
  proof (cases "t = tm")
    case True
    let ?w' = "w\<lparr>timers := filter (\<lambda>u. timerId u \<noteq> timerId tm) (timers w)\<rparr>"
    have "tm \<in> set (timers w)" using Cons.prems(1) by (simp add: awaiting_def)
    then have f: "fire ev t w = fst (refreshConditionalQuestions ev st ?w')"
      using True Cons.prems(2) by (simp add: fire_def runCallback_def)
    have old: "\<forall>u \<in> set (timers ?w'). inert (callback u)"
      using awaiting_others [OF Cons.prems(1)] by auto
    have log: "refreshCalls (fire ev t w) = refreshCalls w @ [clock w]"
      using f refreshConditionalQuestions_log [of ev st ?w'] by simp
    have quiet: "\<forall>u \<in> set (timers (fire ev t w)). inert (callback u)"
      using f refreshConditionalQuestions_timers [of ev st ?w'] old by auto
    have rest: "\<forall>u \<in> set ts. inert (callback u)"
      using Cons.prems(4,5) True by auto
    from fold_fire_inert [OF rest quiet, of ev] log show ?thesis by simp
  next
    case False
    with Cons.prems(5) have t: "inert (callback t)" "timerId t \<noteq> timerId tm" by simp_all
    from fire_other [OF Cons.prems(1) t, of ev]
    have a: "awaiting h tm (fire ev t w)" "refreshCalls (fire ev t w) = refreshCalls w"
      "clock (fire ev t w) = clock w" by simp_all
    from Cons.IH [OF a(1) Cons.prems(2)] Cons.prems(3,4,5) False a(2,3)
    show ?thesis by simp
  qed
qed

lemma tick_fires:
  assumes "awaiting h tm w" and "callback tm = CallRefresh st" and "due tm = Suc (clock w)"
  shows "refreshCalls (tick ev w) = refreshCalls w @ [Suc (clock w)]
         \<and> (\<forall>u \<in> set (timers (tick ev w)). inert (callback u))"
proof -
  let ?w1 = "w\<lparr>clock := Suc (clock w)\<rparr>"
  let ?ts = "sort_key due (filter (\<lambda>t. due t \<le> clock ?w1) (timers ?w1))"
  have a: "awaiting h tm ?w1" using assms(1) by (simp add: awaiting_def timersWellFormed_def)
  have m: "tm \<in> set ?ts" using assms(1,3) by (simp add: awaiting_def)
  have "distinct (map timerId (timers w))"
    using assms(1) by (simp add: awaiting_def timersWellFormed_def)
  then have "distinct (timers w)" by (simp add: distinct_map)
  then have d: "distinct ?ts" by simp
  have o: "\<forall>t \<in> set ?ts. t \<noteq> tm \<longrightarrow> inert (callback t) \<and> timerId t \<noteq> timerId tm"
    using awaiting_others [OF assms(1)] by simp
  from fold_fire_refresh [OF a assms(2) m d o, of ev] show ?thesis
    by (simp add: tick_def Let_def)
qed

lemma awaiting_refresh_fires:
  assumes "awaiting h tm w" and "due tm = clock w + 300" and "callback tm = CallRefresh st"
  shows "(\<forall>n < 300. refreshCalls (elapse ev n w) = refreshCalls w)
         \<and> (\<forall>m \<ge> 300. refreshCalls (elapse ev m w) = refreshCalls w @ [clock w + 300])"
proof -
  have idle: "refreshCalls (elapse ev n w) = refreshCalls w" if "n < 300" for n
    using that elapse_awaiting [OF assms(1), of n ev] assms(2) by simp
  from elapse_awaiting [OF assms(1), of 299 ev] assms(2)
  have b: "awaiting h tm (elapse ev 299 w)" "refreshCalls (elapse ev 299 w) = refreshCalls w"
    "clock (elapse ev 299 w) = clock w + 299" by simp_all
  have "elapse ev 300 w = tick ev (elapse ev 299 w)"
    using elapse_Suc [of ev 299 w] by simp
  with tick_fires [OF b(1) assms(3), of ev] assms(2) b
  have log: "refreshCalls (elapse ev 300 w) = refreshCalls w @ [clock w + 300]"
    and quiet: "\<forall>u \<in> set (timers (elapse ev 300 w)). inert (callback u)"
    by simp_all
  have later: "refreshCalls (elapse ev m w) = refreshCalls w @ [clock w + 300]" if "300 \<le> m" for m
  proof -
    from that have "m = 300 + (m - 300)" by simp
    then have "elapse ev m w = elapse ev (m - 300) (elapse ev 300 w)"
      using elapse_add [of ev 300 "m - 300" w] by simp
    with elapse_inert [OF quiet, of ev "m - 300"] log show ?thesis by simp
  qed
  from idle later show ?thesis by simp
qed

text \<open>
  Claim C7. The listener of an element of a trigger question is debounced exactly when
  the element is an \<open>input\<close> of type text, number, email, tel or url, or a \<open>textarea\<close>;
  every other element refreshes at once on \<open>change\<close>. When no debounced refresh is
  pending (other timers may be) and input events arrive on a debounced element with gaps
  of less than 300 units of time, no refresh is called until 300 units after the last
  event, and exactly one is called then.
\<close>

theorem continuous_events_are_debounced:
  "(eventName c = ''input'' \<longleftrightarrow>
      (tagName c = ''INPUT'' \<and> inputType c \<in> set [''text'', ''number'', ''email'', ''tel'', ''url''])
      \<or> tagName c = ''TEXTAREA'')
   \<and> (eventName c \<noteq> ''input'' \<longrightarrow>
        eventName c = ''change''
        \<and> refreshCalls (dispatchEvent ev st h c ''change'' w) = refreshCalls w @ [clock w])
   \<and> (eventName c = ''input'' \<and> timersWellFormed w \<and> noRefreshPending w
        \<and> (\<forall>g \<in> set gaps. g < 300) \<longrightarrow>
        (\<forall>n < 300. refreshCalls (elapse ev n (burst ev st h c gaps w)) = refreshCalls w)
        \<and> (\<forall>m \<ge> 300. refreshCalls (elapse ev m (burst ev st h c gaps w))
              = refreshCalls w @ [clock w + sum_list gaps + 300]))"
proof (intro conjI impI)
  show "eventName c = ''input'' \<longleftrightarrow>
      (tagName c = ''INPUT'' \<and> inputType c \<in> set [''text'', ''number'', ''email'', ''tel'', ''url''])
      \<or> tagName c = ''TEXTAREA''"
    by (simp add: eventName_def)
next
  assume "eventName c \<noteq> ''input''"
  then show "eventName c = ''change''" by (simp add: eventName_def split: if_splits)
next
  assume "eventName c \<noteq> ''input''"
  then have "eventName c = ''change''" by (simp add: eventName_def split: if_splits)
  then show "refreshCalls (dispatchEvent ev st h c ''change'' w) = refreshCalls w @ [clock w]"
    using refreshConditionalQuestions_log [of ev st w]
    by (simp add: dispatchEvent_def handler_def)
next
  assume a: "eventName c = ''input'' \<and> timersWellFormed w \<and> noRefreshPending w
    \<and> (\<forall>g \<in> set gaps. g < 300)"
  let ?w' = "burst ev st h c gaps w"
  from burst_awaiting [of c w h gaps ev st] a obtain tm where
    tm: "awaiting h tm ?w'" "due tm = clock w + sum_list gaps + 300"
      "callback tm = CallRefresh st" "refreshCalls ?w' = refreshCalls w"
      "clock ?w' = clock w + sum_list gaps"
    by auto
  from awaiting_refresh_fires [of h tm ?w' st ev] tm
  have b: "(\<forall>n < 300. refreshCalls (elapse ev n ?w') = refreshCalls w)
         \<and> (\<forall>m \<ge> 300. refreshCalls (elapse ev m ?w')
               = refreshCalls w @ [clock w + sum_list gaps + 300])"
    by simp
  from b show "\<forall>n < 300. refreshCalls (elapse ev n ?w') = refreshCalls w" by simp
  from b show "\<forall>m \<ge> 300. refreshCalls (elapse ev m ?w')
               = refreshCalls w @ [clock w + sum_list gaps + 300]" by simp
qed

theorem continuous_events_are_debounced_witness:
  "eventName textInput = ''input'' \<and> timersWellFormed removalPending
   \<and> noRefreshPending removalPending
   \<and> refreshCalls (elapse showAll 299
        (burst showAll (stepOf [conditionalQuestion ''Q3'' ''shortText'']) 0 textInput [50, 50] removalPending)) = []
   \<and> refreshCalls (elapse showAll 300
        (burst showAll (stepOf [conditionalQuestion ''Q3'' ''shortText'']) 0 textInput [50, 50] removalPending)) = [400]
   \<and> refreshCalls (elapse showAll 1000
        (burst showAll (stepOf [conditionalQuestion ''Q3'' ''shortText'']) 0 textInput [50, 50] removalPending)) = [400]"
proof -
  let ?w' = "burst showAll (stepOf [conditionalQuestion ''Q3'' ''shortText'']) 0 textInput [50, 50] removalPending"
  have e: "eventName textInput = ''input''" by (simp add: textInput_def eventName_def)
  have t: "timersWellFormed removalPending" "noRefreshPending removalPending"
    by (simp_all add: removalPending_def emptyWorld_def setTimeout_def timersWellFormed_def
        noRefreshPending_def inert_def)
  have g: "\<forall>g \<in> set [50, 50 :: nat]. g < 300" by simp
  from continuous_events_are_debounced
    [of textInput showAll "stepOf [conditionalQuestion ''Q3'' ''shortText'']" 0 removalPending "[50, 50]"]
    e t g
  have a: "\<forall>n < 300. refreshCalls (elapse showAll n ?w') = refreshCalls removalPending"
    and b: "\<forall>m \<ge> 300. refreshCalls (elapse showAll m ?w')
              = refreshCalls removalPending @ [clock removalPending + sum_list [50, 50] + 300]"
    by simp_all
  from a [rule_format, of 299] b [rule_format, of 300] b [rule_format, of 1000] e t
  show ?thesis by (simp add: removalPending_def emptyWorld_def setTimeout_def)
qed

end
